theory Spec2Isabelle
  imports Complex_Main "HOL-Library.Word" "HOL-Library.Multiset"
begin

section \<open>Data model of processing.cpp\<close>

text \<open>
  The C++ \<open>int\<close> of coordinates, sizes, indices and counts is modelled as the unbounded
  \<open>int\<close>: its overflow is undefined behaviour in the source and is not modelled, and
  where a property needs the 32-bit range it says so. \<open>uchar\<close> is an 8-bit word.
\<close>

type_synonym uchar = "8 word"

datatype point = Point (x_of: int) (y_of: int)

datatype rect = Rect (rx: int) (ry: int) (rwidth: int) (rheight: int)

datatype cvSize = Size (swidth: int) (sheight: int)

datatype vec3b = Vec3b uchar uchar uchar

datatype vec4i = Vec4i int int int int

type_synonym contour = "point list"

text \<open>\<open>pix[k]\<close> on a \<open>cv::Vec3b\<close> (channel order B, G, R) and on a \<open>cv::Vec4i\<close>
  (next sibling, previous sibling, first child, parent).\<close>

fun vec3b_at :: "vec3b \<Rightarrow> nat \<Rightarrow> uchar" where
  "vec3b_at (Vec3b b g r) k = (if k = 0 then b else if k = 1 then g else r)"

fun vec4i_at :: "vec4i \<Rightarrow> nat \<Rightarrow> int" where
  "vec4i_at (Vec4i a b c d) k =
     (if k = 0 then a else if k = 1 then b else if k = 2 then c else d)"

text \<open>A \<open>cv::Mat\<close>: its dimensions and its elements in row-major order, so that the
  element at column \<open>x\<close> of row \<open>y\<close> is number \<open>y * cols + x\<close>.\<close>

record 'a mat =
  rows :: int
  cols :: int
  mdata :: "'a list"

definition mat_size :: "'a mat \<Rightarrow> cvSize" where
  "mat_size m = Size (cols m) (rows m)"

definition mat_at :: "'a mat \<Rightarrow> point \<Rightarrow> 'a" where
  "mat_at m p = mdata m ! nat (y_of p * cols m + x_of p)"

text \<open>
  What a run of the code can end in: a value, undefined behaviour of the C++ (an index
  outside a vector or a matrix, a library call outside its domain), or a loop that was
  still running when the step budget of the model ran out.
\<close>

datatype fault = OutOfRange | EmptyPointSet

datatype 'a outcome = Done 'a | Fault fault | OutOfFuel

fun andThen :: "'a outcome \<Rightarrow> ('a \<Rightarrow> 'b outcome) \<Rightarrow> 'b outcome" where
  "andThen (Done v) f = f v"
| "andThen (Fault e) f = Fault e"
| "andThen OutOfFuel f = OutOfFuel"

text \<open>\<open>refines a b\<close>: whenever the run \<open>a\<close> returns a value, \<open>b\<close> returns the same.\<close>

definition refines :: "'a outcome \<Rightarrow> 'a outcome \<Rightarrow> bool" where
  "refines a b = (\<forall>v. a = Done v \<longrightarrow> b = Done v)"

text \<open>\<open>v[i]\<close> on a \<open>std::vector\<close> with an \<open>int\<close> index: undefined outside the vector.\<close>

definition vec_at :: "'a list \<Rightarrow> int \<Rightarrow> 'a outcome" where
  "vec_at v i = (if 0 \<le> i \<and> i < int (length v) then Done (v ! nat i) else Fault OutOfRange)"

text \<open>\<open>m.at<T>(p) = v\<close>: undefined outside the matrix.\<close>

definition mat_set :: "'a mat \<Rightarrow> point \<Rightarrow> 'a \<Rightarrow> 'a mat outcome" where
  "mat_set m p v =
     (if 0 \<le> x_of p \<and> x_of p < cols m \<and> 0 \<le> y_of p \<and> y_of p < rows m
      then Done (m\<lparr>mdata := (mdata m)[nat (y_of p * cols m + x_of p) := v]\<rparr>)
      else Fault OutOfRange)"

section \<open>Double arithmetic\<close>

text \<open>
  The values of \<open>double\<close> expressions are modelled as exact rationals, and the rounding
  of IEEE 754 binary64 (round to nearest, ties to even, one rounding for each operation)
  is written out by \<open>binary64\<close>: the argument is rounded to a whole multiple of the unit
  in the last place of its binade. It is meant for the values that occur here, which are
  zero or at least \<open>2\<^sup>-\<^sup>6\<^sup>4\<close> and far below the overflow threshold; a negative argument
  gives 0, which every comparison of the source treats as it would the negative value.
  Sums and halves of small whole numbers are exact and are not wrapped.
\<close>

function bitlength :: "int \<Rightarrow> int" where
  "bitlength n = (if n \<le> 0 then 0 else 1 + bitlength (n div 2))"
  by pat_completeness auto
termination
  by (relation "measure nat") auto

declare bitlength.simps [simp del]

definition roundTiesToEven :: "rat \<Rightarrow> int" where
  "roundTiesToEven q =
     (let f = \<lfloor>q\<rfloor>; d = q - of_int f
      in if d < 1 / 2 then f
         else if 1 / 2 < d then f + 1
         else if even f then f else f + 1)"

definition binary64 :: "rat \<Rightarrow> rat" where
  "binary64 q =
     (if q \<le> 0 then 0
      else let e = bitlength \<lfloor>q * 2 ^ 64\<rfloor> - 65;
               ulp = (if 52 \<le> e then 2 ^ nat (e - 52) else 1 / 2 ^ nat (52 - e))
           in of_int (roundTiesToEven (q / ulp)) * ulp)"

text \<open>The conversion of a non-negative \<open>double\<close> to \<open>uchar\<close> truncates.\<close>

definition uchar_of_double :: "rat \<Rightarrow> uchar" where
  "uchar_of_double q = word_of_int \<lfloor>q\<rfloor>"

section \<open>intensity\<close>

text \<open>\<open>0.3 * pix[2] + 0.59 * pix[1] + 0.11 * pix[0]\<close>: three literals rounded to
  \<open>double\<close>, three products and two sums, each rounded.\<close>

definition luma :: "vec3b \<Rightarrow> rat" where
  "luma pix =
     binary64 (binary64 (binary64 (binary64 (3 / 10) * of_nat (unat (vec3b_at pix 2)))
                         + binary64 (binary64 (59 / 100) * of_nat (unat (vec3b_at pix 1))))
               + binary64 (binary64 (11 / 100) * of_nat (unat (vec3b_at pix 0))))"

definition intensity :: "vec3b mat \<Rightarrow> point \<Rightarrow> uchar" where
  "intensity img loc =
     (if x_of loc < 0 \<or> x_of loc \<ge> cols img \<or> y_of loc < 0 \<or> y_of loc \<ge> rows img
      then 0
      else let pix = mat_at img loc in uchar_of_double (luma pix))"

text \<open>A hundred times the luma of the specification, \<open>0.3 R + 0.59 G + 0.11 B\<close>, as a
  whole number.\<close>

definition weightedSum :: "vec3b \<Rightarrow> int" where
  "weightedSum pix =
     30 * int (unat (vec3b_at pix 2)) + 59 * int (unat (vec3b_at pix 1))
       + 11 * int (unat (vec3b_at pix 0))"

section \<open>The region classifier\<close>

text \<open>
  \<open>cv::boundingRect\<close> is OpenCV's: the upright rectangle through the least and the
  greatest coordinates of an integer point set, both included (so a single point has a
  1 by 1 box), and the empty rectangle for an empty point set.
\<close>

definition boundingRect :: "contour \<Rightarrow> rect" where
  "boundingRect c =
     (case c of
        [] \<Rightarrow> Rect 0 0 0 0
      | p # ps \<Rightarrow>
          (let xmin = fold min (map x_of ps) (x_of p); xmax = fold max (map x_of ps) (x_of p);
               ymin = fold min (map y_of ps) (y_of p); ymax = fold max (map y_of ps) (y_of p)
           in Rect xmin ymin (xmax - xmin + 1) (ymax - ymin + 1)))"

text \<open>
  The \<open>int\<close> of the source has 32 bits. A product of two of them that leaves the range
  is undefined in C++ and wraps around on the usual targets; \<open>int32\<close> is the value that
  is left then.
\<close>

definition int32 :: "int \<Rightarrow> int" where
  "int32 n = (n + 2 ^ 31) mod 2 ^ 32 - 2 ^ 31"

text \<open>
  \<open>hasTextRatio\<close>. The quotient is a \<open>double\<close> division: with a zero height it is
  NaN for a zero width, against which both comparisons are false, and an infinity
  otherwise, which one of them rejects. The two areas are \<open>int\<close> products, computed in
  \<open>int\<close> and only then converted to \<open>double\<close>, which is exact, and the fifth of the
  image area is a rounded quotient again.
\<close>

definition hasTextRatio :: "contour \<Rightarrow> cvSize \<Rightarrow> bool" where
  "hasTextRatio c imgSize =
     (let box = boundingRect c;
          ratio = binary64 (of_int (rwidth box) / of_int (rheight box));
          boxArea = int32 (rwidth box * rheight box);
          imgArea = int32 (swidth imgSize * sheight imgSize);
          areaOk = (boxArea \<ge> 15 \<and> (of_int boxArea :: rat) \<le> binary64 (of_int imgArea / 5))
      in if rheight box = 0 then (if rwidth box = 0 then areaOk else False)
         else if ratio < binary64 (1 / 10) \<or> ratio > 10 then False else areaOk)"

text \<open>\<open>isConnected\<close> reads \<open>contour[0]\<close> and \<open>contour[contour.size() - 1]\<close> unguarded.\<close>

definition isConnected :: "contour \<Rightarrow> bool outcome" where
  "isConnected c =
     andThen (vec_at c 0) (\<lambda>first.
     andThen (vec_at c (int (length c) - 1)) (\<lambda>last.
       Done (\<bar>x_of first - x_of last\<bar> \<le> 1 \<and> \<bar>y_of first - y_of last\<bar> \<le> 1)))"

text \<open>\<open>keep\<close>: the \<open>&&\<close> of the source evaluates \<open>isConnected\<close> only after
  \<open>hasTextRatio\<close> has accepted.\<close>

definition keep :: "contour \<Rightarrow> cvSize \<Rightarrow> bool outcome" where
  "keep c imgSize = (if hasTextRatio c imgSize then isConnected c else Done False)"

section \<open>The descendant counter\<close>

text \<open>
  \<open>countChildren\<close> recurses into the first child and then runs two \<open>for\<close> loops over
  the chain that starts at \<open>hier[child][0]\<close>. Both loops of the source advance by
  \<open>hier[...][0]\<close> and stop at the first index that is not positive, so both are the one
  function \<open>countSiblings\<close>, which carries the running \<open>count\<close> (here \<open>cnt\<close>). The
  first argument bounds the depth of the calls: when it is used up the result is
  \<open>OutOfFuel\<close>.
\<close>

fun countChildren :: "nat \<Rightarrow> contour list \<Rightarrow> vec4i list \<Rightarrow> int \<Rightarrow> cvSize \<Rightarrow> int outcome"
  and countSiblings ::
    "nat \<Rightarrow> contour list \<Rightarrow> vec4i list \<Rightarrow> int \<Rightarrow> cvSize \<Rightarrow> int \<Rightarrow> int outcome"
where
  "countChildren 0 contours hier index imgSize = OutOfFuel"
| "countChildren (Suc fuel) contours hier index imgSize =
     andThen (vec_at hier index) (\<lambda>h.
       if vec4i_at h 2 < 0 then Done 0
       else
         let child = vec4i_at h 2 in
         andThen (vec_at contours child) (\<lambda>c.
         andThen (keep c imgSize) (\<lambda>k.
         andThen (countChildren fuel contours hier child imgSize) (\<lambda>n.
         andThen (vec_at hier child) (\<lambda>h1.
         andThen (countSiblings fuel contours hier (vec4i_at h1 0) imgSize
                    ((if k then 1 else 0) + n)) (\<lambda>cnt.
         andThen (vec_at hier child) (\<lambda>h2.
           countSiblings fuel contours hier (vec4i_at h2 0) imgSize cnt)))))))"
| "countSiblings 0 contours hier next imgSize cnt = OutOfFuel"
| "countSiblings (Suc fuel) contours hier next imgSize cnt =
     (if next > 0 then
        andThen (vec_at contours next) (\<lambda>c.
        andThen (keep c imgSize) (\<lambda>k.
        andThen (countChildren fuel contours hier next imgSize) (\<lambda>n.
        andThen (vec_at hier next) (\<lambda>h.
          countSiblings fuel contours hier (vec4i_at h 0) imgSize
            (cnt + (if k then 1 else 0) + n)))))
      else Done cnt)"

text \<open>
  The count the specification describes: the contours classified keep among all
  descendants of \<open>i\<close>, a descendant being a contour that has \<open>i\<close> on its chain of
  parent links.
\<close>

fun hasAncestor :: "nat \<Rightarrow> vec4i list \<Rightarrow> int \<Rightarrow> int \<Rightarrow> bool" where
  "hasAncestor 0 hier a j = False"
| "hasAncestor (Suc fuel) hier a j =
     (case vec_at hier j of
        Done h \<Rightarrow> vec4i_at h 3 = a \<or> (0 \<le> vec4i_at h 3 \<and> hasAncestor fuel hier a (vec4i_at h 3))
      | _ \<Rightarrow> False)"

definition keptDescendants :: "contour list \<Rightarrow> vec4i list \<Rightarrow> int \<Rightarrow> cvSize \<Rightarrow> int" where
  "keptDescendants contours hier i imgSize =
     int (length (filter (\<lambda>j. hasAncestor (length hier) hier i (int j)
                              \<and> keep (contours ! j) imgSize = Done True)
                    [0 ..< length contours]))"

text \<open>
  A hierarchy that is a finite forest: every link is the sentinel or an index of the
  hierarchy, the first child of a contour and the contours after it in its sibling chain
  have that contour as parent, no contour is its own ancestor (its chain of parent links
  leaves the hierarchy within as many steps as there are contours), and every sibling
  chain is acyclic (its next links reach an index that is not positive within as many
  steps).
\<close>

fun chainEnds :: "nat \<Rightarrow> (int \<Rightarrow> int) \<Rightarrow> (int \<Rightarrow> bool) \<Rightarrow> int \<Rightarrow> bool" where
  "chainEnds 0 step stop i = stop i"
| "chainEnds (Suc fuel) step stop i = (stop i \<or> chainEnds fuel step stop (step i))"

definition link :: "vec4i list \<Rightarrow> nat \<Rightarrow> int \<Rightarrow> int" where
  "link hier k i = vec4i_at (hier ! nat i) k"

definition forest :: "vec4i list \<Rightarrow> bool" where
  "forest hier =
     (\<forall>i \<in> {0 ..< length hier}.
        link hier 0 (int i) < int (length hier)
      \<and> link hier 2 (int i) < int (length hier)
      \<and> link hier 3 (int i) < int (length hier)
      \<and> (0 \<le> link hier 2 (int i) \<longrightarrow> link hier 3 (link hier 2 (int i)) = int i)
      \<and> (0 \<le> link hier 0 (int i) \<longrightarrow> link hier 3 (link hier 0 (int i)) = link hier 3 (int i))
      \<and> chainEnds (length hier) (link hier 3) (\<lambda>j. j < 0) (int i)
      \<and> chainEnds (length hier) (link hier 0) (\<lambda>j. j \<le> 0) (int i))"

text \<open>Example data: the full boundary trace of an upright rectangle, as the contour
  tracer lists it, and a hierarchy of one outer contour with two inner ones side by side.\<close>

definition rectTrace :: "int \<Rightarrow> int \<Rightarrow> int \<Rightarrow> int \<Rightarrow> contour" where
  "rectTrace x0 y0 w h =
     map (\<lambda>dy. Point x0 (y0 + dy)) [0 .. h - 1]
     @ map (\<lambda>dx. Point (x0 + dx) (y0 + h - 1)) [1 .. w - 1]
     @ map (\<lambda>dy. Point (x0 + w - 1) (y0 + h - 1 - dy)) [1 .. h - 1]
     @ map (\<lambda>dx. Point (x0 + w - 1 - dx) y0) [1 .. w - 2]"

definition nestedContours :: "contour list" where
  "nestedContours = [rectTrace 10 10 60 60, rectTrace 20 20 5 4, rectTrace 40 20 5 4]"

definition nestedHierarchy :: "vec4i list" where
  "nestedHierarchy = [Vec4i (-1) (-1) 1 (-1), Vec4i 2 (-1) (-1) 0, Vec4i (-1) 1 (-1) 0]"

section \<open>The region selection of textBinary\<close>

text \<open>
  The \<open>for\<close> loop with the empty body that looks for "the parent contour": it moves up
  the parent links for as long as the index is positive and the contour there is
  classified keep, and leaves in \<open>parent\<close> the index it stopped at.
\<close>

fun parentWalk :: "nat \<Rightarrow> contour list \<Rightarrow> vec4i list \<Rightarrow> int \<Rightarrow> cvSize \<Rightarrow> int outcome" where
  "parentWalk 0 contours hier parent imgSize = OutOfFuel"
| "parentWalk (Suc fuel) contours hier parent imgSize =
     (if parent > 0 then
        andThen (vec_at contours parent) (\<lambda>c.
        andThen (keep c imgSize) (\<lambda>k.
          if k then
            andThen (vec_at hier parent) (\<lambda>h.
              parentWalk fuel contours hier (vec4i_at h 3) imgSize)
          else Done parent))
      else Done parent)"

text \<open>The body of the loop over the contours: whether contour \<open>i\<close> is pushed onto
  \<open>keptRegions\<close>.\<close>

definition regionAccepted ::
  "nat \<Rightarrow> contour list \<Rightarrow> vec4i list \<Rightarrow> cvSize \<Rightarrow> int \<Rightarrow> bool outcome" where
  "regionAccepted fuel contours hier imgSize i =
     andThen (vec_at contours i) (\<lambda>c.
     andThen (vec_at hier i) (\<lambda>h.
     andThen (parentWalk fuel contours hier (vec4i_at h 3) imgSize) (\<lambda>parent.
     andThen (countChildren fuel contours hier i imgSize) (\<lambda>numChildren.
     andThen (keep c imgSize) (\<lambda>k.
       Done (k \<and> \<not> (parent > 0 \<and> numChildren \<le> 2) \<and> numChildren \<le> 2))))))"

fun selectRegions ::
  "nat \<Rightarrow> contour list \<Rightarrow> vec4i list \<Rightarrow> cvSize \<Rightarrow> nat list \<Rightarrow> (contour \<times> rect) list outcome"
where
  "selectRegions fuel contours hier imgSize [] = Done []"
| "selectRegions fuel contours hier imgSize (i # is) =
     andThen (regionAccepted fuel contours hier imgSize (int i)) (\<lambda>a.
     andThen (selectRegions fuel contours hier imgSize is) (\<lambda>keptRegions.
       Done (if a then (contours ! i, boundingRect (contours ! i)) # keptRegions
             else keptRegions)))"

text \<open>
  The selection rule as the specification words it: the nearest kept ancestor is found by
  walking the parent links past the ancestors that are not kept, and the region is
  suppressed when that ancestor's own count is at most 2.
\<close>

fun nearestKeptAncestor ::
  "nat \<Rightarrow> contour list \<Rightarrow> vec4i list \<Rightarrow> int \<Rightarrow> cvSize \<Rightarrow> int outcome" where
  "nearestKeptAncestor 0 contours hier parent imgSize = OutOfFuel"
| "nearestKeptAncestor (Suc fuel) contours hier parent imgSize =
     (if parent < 0 then Done parent
      else
        andThen (vec_at contours parent) (\<lambda>c.
        andThen (keep c imgSize) (\<lambda>k.
          if k then Done parent
          else
            andThen (vec_at hier parent) (\<lambda>h.
              nearestKeptAncestor fuel contours hier (vec4i_at h 3) imgSize))))"

definition policyAccepted ::
  "nat \<Rightarrow> contour list \<Rightarrow> vec4i list \<Rightarrow> cvSize \<Rightarrow> int \<Rightarrow> bool outcome" where
  "policyAccepted fuel contours hier imgSize i =
     andThen (vec_at contours i) (\<lambda>c.
     andThen (vec_at hier i) (\<lambda>h.
     andThen (nearestKeptAncestor fuel contours hier (vec4i_at h 3) imgSize) (\<lambda>ancestor.
     andThen (countChildren fuel contours hier i imgSize) (\<lambda>numChildren.
     andThen (keep c imgSize) (\<lambda>k.
       if ancestor < 0 then Done (k \<and> numChildren \<le> 2)
       else
         andThen (countChildren fuel contours hier ancestor imgSize) (\<lambda>ancestorChildren.
           Done (k \<and> numChildren \<le> 2 \<and> \<not> ancestorChildren \<le> 2)))))))"

section \<open>The foreground and background estimates\<close>

text \<open>
  \<open>fgThresh\<close>: the sum of the samples, a whole number, divided by \<open>contour.size()\<close>
  in \<open>double\<close>. The quotient by zero is NaN, here \<open>None\<close>, against which every
  comparison is false.
\<close>

definition fgThresh :: "vec3b mat \<Rightarrow> contour \<Rightarrow> rat option" where
  "fgThresh src c =
     (let total = fold (\<lambda>point acc. acc + int (unat (intensity src point))) c 0
      in if length c = 0 then None
         else Some (binary64 (of_int total / of_nat (length c))))"

definition bgSamples :: "vec3b mat \<Rightarrow> rect \<Rightarrow> uchar list" where
  "bgSamples src box =
     [intensity src (Point (rx box - 1) (ry box - 1)),
      intensity src (Point (rx box - 1) (ry box)),
      intensity src (Point (rx box) (ry box - 1)),
      intensity src (Point (rx box + rwidth box + 1) (ry box - 1)),
      intensity src (Point (rx box + rwidth box + 1) (ry box)),
      intensity src (Point (rx box + rwidth box) (ry box - 1)),
      intensity src (Point (rx box - 1) (ry box + rheight box + 1)),
      intensity src (Point (rx box - 1) (ry box + rheight box)),
      intensity src (Point (rx box) (ry box + rheight box + 1)),
      intensity src (Point (rx box + rwidth box + 1) (ry box + rheight box + 1)),
      intensity src (Point (rx box + rwidth box) (ry box + rheight box + 1)),
      intensity src (Point (rx box + rwidth box + 1) (ry box + rheight box))]"

text \<open>
  \<open>std::nth_element\<close> is the standard library's: it rearranges the vector so that
  position \<open>n\<close> holds the element a full sort would put there, nothing before it is
  greater and nothing after it is less; the order of the rest is unspecified. The model
  takes the library function as a parameter; \<open>conforming\<close> is its contract, and a full
  sort is one function that meets it.
\<close>

type_synonym nth_element = "uchar list \<Rightarrow> nat \<Rightarrow> uchar list"

definition conforming :: "nth_element \<Rightarrow> bool" where
  "conforming nthel =
     (\<forall>xs n. n < length xs \<longrightarrow>
        mset (nthel xs n) = mset xs
      \<and> (\<forall>i < n. nthel xs n ! i \<le> nthel xs n ! n)
      \<and> (\<forall>i. n < i \<and> i < length xs \<longrightarrow> nthel xs n ! n \<le> nthel xs n ! i))"

definition sorting_nth_element :: nth_element where
  "sorting_nth_element xs n = sort xs"

text \<open>The median code of textBinary, on the vector \<open>bgs\<close>, which there always holds the
  twelve samples, so that the positions \<open>len/2\<close> and \<open>len/2+1\<close> exist.\<close>

definition bgThresh :: "nth_element \<Rightarrow> uchar list \<Rightarrow> rat" where
  "bgThresh nthel bgs =
     (let len = length bgs;
          bgs1 = nthel bgs (len div 2);
          t = of_nat (unat (bgs1 ! (len div 2)))
      in if len mod 2 = 0
         then let bgs2 = nthel bgs1 (len div 2 + 1)
              in (t + of_nat (unat (bgs2 ! (len div 2 + 1)))) / 2
         else t)"

text \<open>The median as the specification defines it: of the sorted samples, the middle one,
  or the mean of the two middle ones when their number is even.\<close>

definition trueMedian :: "uchar list \<Rightarrow> rat" where
  "trueMedian xs =
     (let len = length xs; s = sort xs
      in if len mod 2 = 0
         then (of_nat (unat (s ! (len div 2 - 1))) + of_nat (unat (s ! (len div 2)))) / 2
         else of_nat (unat (s ! (len div 2))))"

text \<open>\<open>fgThresh >= bgThresh\<close> and \<open>intensity(img, p) > fgThresh\<close>, false on NaN.\<close>

definition polarity :: "rat option \<Rightarrow> rat \<Rightarrow> uchar \<times> uchar" where
  "polarity fgT bgT =
     (case fgT of
        None \<Rightarrow> (0, 255)
      | Some t \<Rightarrow> if t \<ge> bgT then (255, 0) else (0, 255))"

definition exceeds :: "uchar \<Rightarrow> rat option \<Rightarrow> bool" where
  "exceeds v fgT = (case fgT of None \<Rightarrow> False | Some t \<Rightarrow> of_nat (unat v) > t)"

section \<open>The mask compositor\<close>

text \<open>The guard of the fill loop, as written: \<open>x >= 0 && x < img.cols && y >= 0 &&
  img.rows\<close>. Its last operand is the number of rows itself, true when not zero.\<close>

definition fillGuard :: "vec3b mat \<Rightarrow> int \<Rightarrow> int \<Rightarrow> bool" where
  "fillGuard img x y = (x \<ge> 0 \<and> x < cols img \<and> y \<ge> 0 \<and> rows img \<noteq> 0)"

fun fillColumn ::
  "vec3b mat \<Rightarrow> rat option \<Rightarrow> uchar \<Rightarrow> uchar \<Rightarrow> int \<Rightarrow> int list \<Rightarrow> uchar mat \<Rightarrow> uchar mat outcome"
where
  "fillColumn img fgT fg bg x [] filt = Done filt"
| "fillColumn img fgT fg bg x (y # ys) filt =
     (if fillGuard img x y then
        andThen (if exceeds (intensity img (Point x y)) fgT
                 then mat_set filt (Point x y) bg
                 else mat_set filt (Point x y) fg) (\<lambda>filt'.
          fillColumn img fgT fg bg x ys filt')
      else fillColumn img fgT fg bg x ys filt)"

fun fillBox ::
  "vec3b mat \<Rightarrow> rat option \<Rightarrow> uchar \<Rightarrow> uchar \<Rightarrow> rect \<Rightarrow> int list \<Rightarrow> uchar mat \<Rightarrow> uchar mat outcome"
where
  "fillBox img fgT fg bg box [] filt = Done filt"
| "fillBox img fgT fg bg box (x # xs) filt =
     andThen (fillColumn img fgT fg bg x [ry box .. ry box + rheight box - 1] filt) (\<lambda>filt'.
       fillBox img fgT fg bg box xs filt')"

text \<open>The body of the loop over \<open>keptRegions\<close>, and the loop.\<close>

definition paintRegion ::
  "nth_element \<Rightarrow> vec3b mat \<Rightarrow> vec3b mat \<Rightarrow> contour \<times> rect \<Rightarrow> uchar mat \<Rightarrow> uchar mat outcome"
where
  "paintRegion nthel src img p filt =
     (let c = fst p; box = snd p;
          fgT = fgThresh src c;
          bgT = bgThresh nthel (bgSamples src box);
          fg = fst (polarity fgT bgT); bg = snd (polarity fgT bgT)
      in fillBox img fgT fg bg box [rx box .. rx box + rwidth box - 1] filt)"

fun paintRegions ::
  "nth_element \<Rightarrow> vec3b mat \<Rightarrow> vec3b mat \<Rightarrow> (contour \<times> rect) list \<Rightarrow> uchar mat
     \<Rightarrow> uchar mat outcome"
where
  "paintRegions nthel src img [] filt = Done filt"
| "paintRegions nthel src img (p # ps) filt =
     andThen (paintRegion nthel src img p filt) (\<lambda>filt'. paintRegions nthel src img ps filt')"

section \<open>textBinary\<close>

text \<open>\<open>cv::Mat filter(edges.size(), CV_8U, cv::Scalar(255))\<close>.\<close>

definition blankMask :: "int \<Rightarrow> int \<Rightarrow> uchar mat" where
  "blankMask r c = \<lparr>rows = r, cols = c, mdata = replicate (nat (r * c)) 255\<rparr>"

text \<open>\<open>twoTone\<close>: a single-channel image that holds no value other than 0 and 255.\<close>

definition twoTone :: "uchar mat \<Rightarrow> bool" where
  "twoTone m = (\<forall>v \<in> set (mdata m). v = 0 \<or> v = 255)"

text \<open>
  \<open>cv::copyMakeBorder\<close> with \<open>BORDER_CONSTANT\<close> and the default border value: the
  source with a margin of zero pixels on every side.
\<close>

definition copyMakeBorder :: "vec3b mat \<Rightarrow> int \<Rightarrow> vec3b mat" where
  "copyMakeBorder src margin =
     \<lparr>rows = rows src + 2 * margin,
      cols = cols src + 2 * margin,
      mdata = map (\<lambda>k. let px = int k mod (cols src + 2 * margin) - margin;
                            py = int k div (cols src + 2 * margin) - margin
                        in if 0 \<le> px \<and> px < cols src \<and> 0 \<le> py \<and> py < rows src
                           then mat_at src (Point px py) else Vec3b 0 0 0)
                  [0 ..< nat ((rows src + 2 * margin) * (cols src + 2 * margin))]\<rparr>"

text \<open>
  The part of textBinary after \<open>cv::findContours\<close>, on the source image, the padded
  image (of the size of the edge image), the contours and their hierarchy.
\<close>

definition textBinaryCore ::
  "nat \<Rightarrow> nth_element \<Rightarrow> vec3b mat \<Rightarrow> vec3b mat \<Rightarrow> contour list \<Rightarrow> vec4i list
     \<Rightarrow> uchar mat outcome"
where
  "textBinaryCore fuel nthel src img contours hierarchy =
     andThen (selectRegions fuel contours hierarchy (mat_size img) [0 ..< length contours])
       (\<lambda>keptRegions.
          paintRegions nthel src img keptRegions (blankMask (rows img) (cols img)))"

text \<open>
  textBinary. The edge detection and the contour tracing of OpenCV (\<open>cv::split\<close>,
  \<open>cv::Canny\<close>, the union of the channels, \<open>cv::findContours\<close>) are the parameter
  \<open>tracer\<close>, from the padded image to the contours and their hierarchy.
\<close>

definition textBinary ::
  "nat \<Rightarrow> nth_element \<Rightarrow> (vec3b mat \<Rightarrow> contour list \<times> vec4i list) \<Rightarrow> vec3b mat
     \<Rightarrow> uchar mat outcome"
where
  "textBinary fuel nthel tracer src =
     (let img = copyMakeBorder src 50;
          contours = fst (tracer img); hierarchy = snd (tracer img)
      in textBinaryCore fuel nthel src img contours hierarchy)"

section \<open>plateBounds\<close>

text \<open>
  The loop of plateBounds over the pixels, row by row, that collects the position of
  every pixel that is not zero.
\<close>

definition foregroundPoints :: "uchar mat \<Rightarrow> point list" where
  "foregroundPoints img =
     concat (map (\<lambda>py. concat (map (\<lambda>px. if mat_at img (Point px py) \<noteq> 0
                                           then [Point px py] else [])
                                   [0 .. cols img - 1]))
                 [0 .. rows img - 1])"

text \<open>
  Modelled from the spec: \<open>cv::minAreaRect\<close> is OpenCV's and is not defined on an empty
  point set (section 7 of the specification: the minimum-area rectangle of an empty input
  is undefined behaviour in the source). \<open>minAreaRectOf f\<close> is the library function that
  computes \<open>f\<close> where it is defined.
\<close>

definition minAreaRectOf :: "(point list \<Rightarrow> 'b) \<Rightarrow> point list \<Rightarrow> 'b outcome" where
  "minAreaRectOf f points = (if points = [] then Fault EmptyPointSet else Done (f points))"

text \<open>
  plateBounds, with the library calls as parameters: \<open>binarize\<close> is \<open>cv::threshold\<close>
  followed by \<open>cv::erode\<close>, \<open>minAreaRect\<close> the rectangle, \<open>drawBox\<close> the four
  \<open>cv::line\<close> calls. The list of points goes to \<open>minAreaRect\<close> as it is.
\<close>

definition plateBounds ::
  "(uchar mat \<Rightarrow> uchar mat) \<Rightarrow> (point list \<Rightarrow> 'b outcome) \<Rightarrow> ('b \<Rightarrow> uchar mat \<Rightarrow> uchar mat)
     \<Rightarrow> uchar mat \<Rightarrow> uchar mat outcome"
where
  "plateBounds binarize minAreaRect drawBox src =
     (let img = binarize src;
          points = foregroundPoints img
      in andThen (minAreaRect points) (\<lambda>box. Done (drawBox box img)))"

section \<open>Example data\<close>

text \<open>A white source of 20 by 20 pixels, whose padded image has 120 rows and columns, a
  tracer that finds one rectangular contour in the padded image, and a contour that
  reaches the last row of that image.\<close>

definition whiteSource :: "vec3b mat" where
  "whiteSource = \<lparr>rows = 20, cols = 20, mdata = replicate 400 (Vec3b 255 255 255)\<rparr>"

definition glyphTracer :: "vec3b mat \<Rightarrow> contour list \<times> vec4i list" where
  "glyphTracer img = ([rectTrace 60 60 5 4], [Vec4i (- 1) (- 1) (- 1) (- 1)])"

definition bottomContour :: contour where
  "bottomContour = rectTrace 60 116 5 4"

text \<open>An image of one pixel of the grey level 10.\<close>

definition greyPixel :: "vec3b mat" where
  "greyPixel = \<lparr>rows = 1, cols = 1, mdata = [Vec3b 10 10 10]\<rparr>"

text \<open>The twelve samples of the specification's median example.\<close>

definition splitSamples :: "uchar list" where
  "splitSamples = [10, 10, 10, 10, 10, 10, 200, 200, 200, 200, 200, 200]"

text \<open>A second function that meets the contract of \<open>nth_element\<close>: it leaves the
  elements before and after position \<open>n\<close> in descending order.\<close>

definition reversing_nth_element :: nth_element where
  "reversing_nth_element xs n =
     (let s = sort xs in rev (take n s) @ s ! n # rev (drop (Suc n) s))"

text \<open>Three contours, the third nested in the second: in \<open>framedContours\<close> the second is
  a frame too large to be kept, in \<open>ringContours\<close> it is a ring that is kept.\<close>

definition framedContours :: "contour list" where
  "framedContours = [rectTrace 2 2 5 4, rectTrace 10 10 60 60, rectTrace 20 20 5 4]"

definition ringContours :: "contour list" where
  "ringContours = [rectTrace 2 2 5 4, rectTrace 10 10 20 20, rectTrace 15 15 5 4]"

definition framedHierarchy :: "vec4i list" where
  "framedHierarchy = [Vec4i 1 (- 1) (- 1) (- 1), Vec4i (- 1) 0 2 (- 1), Vec4i (- 1) (- 1) (- 1) 1]"

text \<open>A plate image and a binarization under which no pixel of it survives, as the
  inverted threshold leaves none of a uniformly bright image.\<close>

definition whitePlate :: "uchar mat" where
  "whitePlate = \<lparr>rows = 3, cols = 5, mdata = replicate 15 255\<rparr>"

definition clearAll :: "uchar mat \<Rightarrow> uchar mat" where
  "clearAll m = m\<lparr>mdata := map (\<lambda>v. 0) (mdata m)\<rparr>"

text \<open>A stand-in for the drawing of the rectangle, which leaves the image as it is.\<close>

definition drawNothing :: "rect \<Rightarrow> uchar mat \<Rightarrow> uchar mat" where
  "drawNothing box img = img"

section \<open>Rounding to double\<close>

text \<open>The rounding error of \<open>binary64\<close> below a power of two, and its exactness on
  whole numbers.\<close>

lemma bitlength_nonneg: "0 \<le> bitlength n"
  by (induction n rule: bitlength.induct) (subst bitlength.simps, simp)

lemma bitlength_le: "n < 2 ^ k \<Longrightarrow> bitlength n \<le> int k"
proof (induction k arbitrary: n)
  case 0
  then show ?case by (subst bitlength.simps) simp
next
  case (Suc k)
  show ?case
  proof (cases "n \<le> 0")
    case True
    then show ?thesis by (subst bitlength.simps) simp
  next
    case False
    from Suc.prems have "n div 2 < 2 ^ k" by simp
    from Suc.IH [OF this] False show ?thesis
      by (subst bitlength.simps) simp
  qed
qed

lemma roundTiesToEven_err: "\<bar>of_int (roundTiesToEven x) - x\<bar> \<le> 1 / 2"
proof -
  define d where "d = x - of_int \<lfloor>x\<rfloor>"
  have d: "0 \<le> d" "d < 1"
    unfolding d_def by linarith+
  have down: "\<bar>of_int \<lfloor>x\<rfloor> - x\<bar> = d"
    using d(1) by (simp add: d_def)
  have up: "\<bar>of_int (\<lfloor>x\<rfloor> + 1) - x\<bar> = 1 - d"
    using d(2) by (simp add: d_def)
  consider "d < 1 / 2" | "1 / 2 < d" | "d = 1 / 2" by linarith
  then show ?thesis
  proof cases
    case 1
    then have "roundTiesToEven x = \<lfloor>x\<rfloor>"
      by (simp add: roundTiesToEven_def Let_def d_def)
    with 1 down show ?thesis by simp
  next
    case 2
    then have "roundTiesToEven x = \<lfloor>x\<rfloor> + 1"
      by (simp add: roundTiesToEven_def Let_def d_def)
    with 2 up show ?thesis by simp
  next
    case 3
    then have "roundTiesToEven x = \<lfloor>x\<rfloor> \<or> roundTiesToEven x = \<lfloor>x\<rfloor> + 1"
      by (simp add: roundTiesToEven_def Let_def d_def)
    with 3 down up show ?thesis by auto
  qed
qed

lemma roundTiesToEven_nonneg: "0 \<le> x \<Longrightarrow> 0 \<le> roundTiesToEven x"
  unfolding roundTiesToEven_def Let_def by auto

lemma roundTiesToEven_of_int: "roundTiesToEven (of_int z) = z"
  by (simp add: roundTiesToEven_def)

lemma binary64_nonneg: "0 \<le> binary64 q"
  unfolding binary64_def Let_def
  by (auto intro!: mult_nonneg_nonneg roundTiesToEven_nonneg divide_nonneg_nonneg)

lemma binary64_err_below:
  assumes "0 \<le> q" "q < 2 ^ k" "k \<le> 52"
  shows "\<bar>binary64 q - q\<bar> \<le> 1 / 2 ^ (54 - k)"
proof (cases "q = 0")
  case True
  then show ?thesis by (simp add: binary64_def)
next
  case False
  with assms have pos: "0 < q" by simp
  define e where "e = bitlength \<lfloor>q * 2 ^ 64\<rfloor> - 65"
  define ulp :: rat where "ulp = 1 / 2 ^ nat (52 - e)"
  have "q * 2 ^ 64 < 2 ^ k * 2 ^ 64"
    using assms(2) by simp
  then have "q * 2 ^ 64 < 2 ^ (64 + k)"
    by (simp add: power_add mult.commute)
  then have "\<lfloor>q * 2 ^ 64\<rfloor> < 2 ^ (64 + k)"
    by (simp add: floor_less_iff)
  from bitlength_le [OF this] have e: "e \<le> int k - 1"
    by (simp add: e_def)
  with assms(3) have e52: "e < 52" by simp
  from e assms(3) have "53 - k \<le> nat (52 - e)" by simp
  then have "(2::rat) ^ (53 - k) \<le> 2 ^ nat (52 - e)"
    by (intro power_increasing) simp_all
  then have small: "ulp \<le> 1 / 2 ^ (53 - k)"
    unfolding ulp_def by (intro divide_left_mono) simp_all
  have ulp_pos: "0 < ulp" by (simp add: ulp_def)
  have eq: "binary64 q = of_int (roundTiesToEven (q / ulp)) * ulp"
    using pos e52 by (simp add: binary64_def Let_def e_def ulp_def)
  have "\<bar>of_int (roundTiesToEven (q / ulp)) * ulp - q\<bar>
      = \<bar>of_int (roundTiesToEven (q / ulp)) - q / ulp\<bar> * ulp"
  proof -
    have "of_int (roundTiesToEven (q / ulp)) * ulp - q
        = (of_int (roundTiesToEven (q / ulp)) - q / ulp) * ulp"
      using ulp_pos by (simp add: algebra_simps)
    then show ?thesis
      using ulp_pos by (simp add: abs_mult)
  qed
  also have "\<dots> \<le> (1 / 2) * ulp"
    using roundTiesToEven_err [of "q / ulp"] ulp_pos by (intro mult_right_mono) simp_all
  also have "\<dots> \<le> (1 / 2) * (1 / 2 ^ (53 - k))"
    using small by simp
  also have "\<dots> = 1 / 2 ^ Suc (53 - k)"
    by simp
  also have "Suc (53 - k) = 54 - k"
    using assms(3) by simp
  finally show ?thesis
    unfolding eq .
qed

lemma binary64_err:
  assumes "0 \<le> q" "q < 256"
  shows "\<bar>binary64 q - q\<bar> \<le> 1 / 2 ^ 46"
proof -
  have "q < 2 ^ 8" using assms(2) by simp
  from binary64_err_below [OF assms(1) this] show ?thesis by simp
qed

lemma binary64_bounds:
  assumes "0 \<le> q" "q < 256"
  shows "q - 1 / 70368744177664 \<le> binary64 q" and "binary64 q \<le> q + 1 / 70368744177664"
proof -
  have "\<bar>binary64 q - q\<bar> \<le> 1 / 70368744177664"
    using binary64_err [OF assms] by simp
  then show "q - 1 / 70368744177664 \<le> binary64 q" "binary64 q \<le> q + 1 / 70368744177664"
    unfolding abs_le_iff by linarith+
qed

lemma binary64_far:
  assumes "0 \<le> q" "q < 2147483648"
  shows "q - 1 / 8388608 \<le> binary64 q" "binary64 q \<le> q + 1 / 8388608"
proof -
  have "q < 2 ^ 31" using assms(2) by simp
  from binary64_err_below [OF assms(1) this]
  have "\<bar>binary64 q - q\<bar> \<le> 1 / 8388608" by simp
  then show "q - 1 / 8388608 \<le> binary64 q" "binary64 q \<le> q + 1 / 8388608"
    unfolding abs_le_iff by linarith+
qed

lemma binary64_of_int:
  assumes "0 \<le> n" "n < 2 ^ 52"
  shows "binary64 (of_int n) = of_int n"
proof (cases "n = 0")
  case True
  then show ?thesis by (simp add: binary64_def)
next
  case False
  with assms have pos: "(0::rat) < of_int n" by simp
  define e where "e = bitlength \<lfloor>(of_int n :: rat) * 2 ^ 64\<rfloor> - 65"
  have "(of_int n :: rat) < 2 ^ 52"
    using assms(2) by (metis of_int_less_iff of_int_numeral of_int_power)
  then have "(of_int n :: rat) * 2 ^ 64 < 2 ^ 52 * 2 ^ 64"
    by simp
  then have "(of_int n :: rat) * 2 ^ 64 < 2 ^ 116"
    by simp
  then have "\<lfloor>(of_int n :: rat) * 2 ^ 64\<rfloor> < 2 ^ 116"
    by (simp add: floor_less_iff)
  from bitlength_le [OF this] have e: "e \<le> 51"
    by (simp add: e_def)
  define m where "m = nat (52 - e)"
  have eq: "binary64 (of_int n) = of_int (roundTiesToEven (of_int n / (1 / 2 ^ m))) * (1 / 2 ^ m)"
    using pos e by (simp add: binary64_def Let_def e_def m_def)
  have "(of_int n :: rat) / (1 / 2 ^ m) = of_int (n * 2 ^ m)"
    by simp
  then have "roundTiesToEven (of_int n / (1 / 2 ^ m)) = n * 2 ^ m"
    by (simp only: roundTiesToEven_of_int)
  then show ?thesis
    unfolding eq by simp
qed

lemma binary64_tenth: "binary64 (1 / 10) = 3602879701896397 / 36028797018963968"
  by code_simp

text \<open>A quotient of two positive 32-bit integers and its distance from a bound it does not
  meet.\<close>

lemma int_quotient:
  fixes w h :: int
  assumes "0 \<le> w" "0 < h" "w < 2147483648" "h < 2147483648"
  defines "q \<equiv> (of_int w :: rat) / of_int h"
  defines "t \<equiv> (1 :: rat) / of_int h"
  shows "0 \<le> q" "q < 2147483648" "1 / 2147483648 < t"
    and "a * w + 1 \<le> b * h \<Longrightarrow> of_int a * q + t \<le> of_int b"
    and "b * h + 1 \<le> a * w \<Longrightarrow> of_int b + t \<le> of_int a * q"
proof -
  have hpos: "(0::rat) < of_int h" using assms(2) by simp
  have wnn: "(0::rat) \<le> of_int w" using assms(1) by simp
  show "0 \<le> q" unfolding q_def using hpos wnn by simp
  have "(of_int w :: rat) < of_int (2147483648 :: int)"
    using assms(3) by (simp only: of_int_less_iff)
  then have wlt: "(of_int w :: rat) < 2147483648" by simp
  have "(of_int (1::int) :: rat) \<le> of_int h"
    using assms(2) by (simp only: of_int_le_iff)
  then have h1: "(1::rat) \<le> of_int h" by simp
  have "of_int w * 1 \<le> (of_int w :: rat) * of_int h"
    using h1 wnn by (rule mult_left_mono)
  then have "q \<le> of_int w"
    unfolding q_def using hpos by (simp add: pos_divide_le_eq)
  with wlt show "q < 2147483648" by simp
  have "(of_int h :: rat) < of_int (2147483648 :: int)"
    using assms(4) by (simp only: of_int_less_iff)
  then have "(of_int h :: rat) < 2147483648" by simp
  then show "1 / 2147483648 < t"
    unfolding t_def using hpos by (simp add: field_simps)
  show "of_int a * q + t \<le> of_int b" if "a * w + 1 \<le> b * h"
  proof -
    from that have "(of_int (a * w + 1) :: rat) \<le> of_int (b * h)"
      by (simp only: of_int_le_iff)
    then have "(of_int a * of_int w + 1 :: rat) \<le> of_int b * of_int h" by simp
    then have "(of_int a * of_int w + 1 :: rat) / of_int h \<le> of_int b"
      using hpos by (simp add: pos_divide_le_eq)
    then show ?thesis
      unfolding q_def t_def by (simp add: add_divide_distrib)
  qed
  show "of_int b + t \<le> of_int a * q" if "b * h + 1 \<le> a * w"
  proof -
    from that have "(of_int (b * h + 1) :: rat) \<le> of_int (a * w)"
      by (simp only: of_int_le_iff)
    then have "(of_int b * of_int h + 1 :: rat) \<le> of_int a * of_int w" by simp
    then have "(of_int b * of_int h + 1 :: rat) / of_int h \<le> of_int a * of_int w / of_int h"
      using hpos by (simp add: divide_right_mono)
    then show ?thesis
      unfolding q_def t_def using hpos by (simp add: add_divide_distrib)
  qed
qed

text \<open>On 32-bit operands the comparisons of the source on rounded quotients decide as the
  same comparisons on the exact quotients.\<close>

lemma ratio_below_tenth:
  fixes w h :: int
  assumes "0 \<le> w" "0 < h" "w < 2147483648" "h < 2147483648"
  shows "binary64 (of_int w / of_int h) < binary64 (1 / 10)
     \<longleftrightarrow> (of_int w :: rat) / of_int h < 1 / 10"
proof -
  define q where "q = (of_int w :: rat) / of_int h"
  define t where "t = (1 :: rat) / of_int h"
  note iq = int_quotient [OF assms, folded q_def t_def]
  have hpos: "(0::rat) < of_int h" using assms(2) by simp
  consider "10 * w + 1 \<le> 1 * h" | "10 * w = h" | "1 * h + 1 \<le> 10 * w" by linarith
  then show ?thesis
  proof cases
    case 1
    from iq(4) [OF this] have s: "10 * q + t \<le> 1" by simp
    with iq(3) have lt: "q < 1 / 10" by linarith
    with iq(1) have "q < 256" by simp
    from binary64_bounds(2) [OF iq(1) this] s iq(3)
    have "binary64 q < 3602879701896397 / 36028797018963968" by linarith
    with lt show ?thesis by (simp add: binary64_tenth q_def)
  next
    case 2
    then have "(of_int h :: rat) = of_int (10 * w)" by simp
    then have "q = 1 / 10"
      unfolding q_def using hpos by (simp add: field_simps)
    then show ?thesis by (simp add: q_def)
  next
    case 3
    from iq(5) [OF this] have s: "1 + t \<le> 10 * q" by simp
    with iq(3) have ge: "\<not> q < 1 / 10" by linarith
    have "3602879701896397 / 36028797018963968 \<le> binary64 q"
    proof (cases "q < 256")
      case True
      from binary64_bounds(1) [OF iq(1) this] s iq(3) show ?thesis by linarith
    next
      case False
      with binary64_far(1) [OF iq(1,2)] show ?thesis by linarith
    qed
    with ge show ?thesis by (simp add: binary64_tenth q_def)
  qed
qed

lemma ratio_above_ten:
  fixes w h :: int
  assumes "0 \<le> w" "0 < h" "w < 2147483648" "h < 2147483648"
  shows "10 < binary64 (of_int w / of_int h) \<longleftrightarrow> 10 < (of_int w :: rat) / of_int h"
proof -
  define q where "q = (of_int w :: rat) / of_int h"
  define t where "t = (1 :: rat) / of_int h"
  note iq = int_quotient [OF assms, folded q_def t_def]
  have hpos: "(0::rat) < of_int h" using assms(2) by simp
  consider "1 * w + 1 \<le> 10 * h" | "w = 10 * h" | "10 * h + 1 \<le> 1 * w" by linarith
  then show ?thesis
  proof cases
    case 1
    from iq(4) [OF this] have s: "q + t \<le> 10" by simp
    with iq(3) have le: "\<not> 10 < q" by linarith
    from s iq(3) have "q < 256" by linarith
    from binary64_bounds(2) [OF iq(1) this] s iq(3)
    have "\<not> 10 < binary64 q" by linarith
    with le show ?thesis by (simp add: q_def)
  next
    case 2
    then have "q = of_int 10"
      unfolding q_def using hpos by simp
    moreover have "binary64 (of_int 10) = of_int 10"
      by (rule binary64_of_int) simp_all
    ultimately show ?thesis by (simp add: q_def)
  next
    case 3
    from iq(5) [OF this] have s: "10 + t \<le> q" by simp
    with iq(3) have gt: "10 < q" by linarith
    have "10 < binary64 q"
    proof (cases "q < 256")
      case True
      from binary64_bounds(1) [OF iq(1) this] s iq(3) show ?thesis by linarith
    next
      case False
      with binary64_far(1) [OF iq(1,2)] show ?thesis by linarith
    qed
    with gt show ?thesis by (simp add: q_def)
  qed
qed

lemma area_below_fifth:
  fixes a b :: int
  assumes "0 \<le> a" "a < 2147483648"
  shows "(of_int b :: rat) \<le> binary64 (of_int a / 5) \<longleftrightarrow> (of_int b :: rat) \<le> of_int a / 5"
proof -
  define q where "q = (of_int a :: rat) / of_int 5"
  define t where "t = (1 :: rat) / of_int 5"
  have five: "(0::int) < 5" "(5::int) < 2147483648" by simp_all
  note iq = int_quotient [OF assms(1) five(1) assms(2) five(2), folded q_def t_def]
  have q5: "q = of_int a / 5" "t = 1 / 5" by (simp_all add: q_def t_def)
  consider "1 * a + 1 \<le> b * 5" | "a = b * 5" | "b * 5 + 1 \<le> 1 * a" by linarith
  then show ?thesis
  proof cases
    case 1
    from iq(4) [OF this] have s: "q + 1 / 5 \<le> of_int b" by (simp add: q5)
    then have "\<not> of_int b \<le> q" by linarith
    moreover from binary64_far(2) [OF iq(1,2)] s have "\<not> of_int b \<le> binary64 q" by linarith
    ultimately show ?thesis by (simp add: q5)
  next
    case 2
    then have qb: "q = of_int b" by (simp add: q_def)
    from 2 assms have "0 \<le> b" "b < 2 ^ 52" by simp_all
    then have "binary64 (of_int b) = of_int b" by (rule binary64_of_int)
    with qb show ?thesis by (simp add: q5 [symmetric])
  next
    case 3
    from iq(5) [OF this] have s: "of_int b + 1 / 5 \<le> q" by (simp add: q5)
    then have "of_int b \<le> q" by linarith
    moreover from binary64_far(1) [OF iq(1,2)] s have "of_int b \<le> binary64 q" by linarith
    ultimately show ?thesis by (simp add: q5)
  qed
qed

section \<open>The shape test\<close>

lemma fold_min_le: "fold min xs (a :: int) \<le> a"
proof (induction xs arbitrary: a)
  case Nil
  show ?case by simp
next
  case (Cons x xs)
  have "fold min xs (min x a) \<le> min x a" by (rule Cons.IH)
  also have "\<dots> \<le> a" by simp
  finally show ?case by simp
qed

lemma le_fold_max: "(a :: int) \<le> fold max xs a"
proof (induction xs arbitrary: a)
  case Nil
  show ?case by simp
next
  case (Cons x xs)
  have "a \<le> max x a" by simp
  also have "\<dots> \<le> fold max xs (max x a)" by (rule Cons.IH)
  finally show ?case by simp
qed

lemma boundingRect_nonneg: "0 \<le> rwidth (boundingRect c) \<and> 0 \<le> rheight (boundingRect c)"
proof (cases c)
  case Nil
  then show ?thesis by (simp add: boundingRect_def)
next
  case (Cons p ps)
  have "fold min (map x_of ps) (x_of p) \<le> fold max (map x_of ps) (x_of p)"
    using fold_min_le le_fold_max by (rule order_trans)
  moreover have "fold min (map y_of ps) (y_of p) \<le> fold max (map y_of ps) (y_of p)"
    using fold_min_le le_fold_max by (rule order_trans)
  ultimately show ?thesis
    using Cons by (simp add: boundingRect_def Let_def)
qed

lemma int32_id: "0 \<le> n \<Longrightarrow> n < 2 ^ 31 \<Longrightarrow> int32 n = n"
  by (simp add: int32_def)

text \<open>
  Claim C6. For contours and images within the range of the 32-bit \<open>int\<close> of the
  source, the two areas included, the shape test accepts a contour exactly when the
  width/height ratio of its bounding box lies in the closed interval from 0.1 to 10 and
  the area of the box lies in the closed interval from 15 to a fifth of the image area. So
  a 1 by 200 box is rejected whatever the image, a box of area 10 is rejected whatever the
  image, and the lower bound is inclusive: a box of area exactly 15 passes the area test,
  and is accepted once its ratio is in range and the image has room for it.
\<close>

theorem hasTextRatio_exact:
  assumes "rwidth (boundingRect c) < 2 ^ 31" and "rheight (boundingRect c) < 2 ^ 31"
    and "rwidth (boundingRect c) * rheight (boundingRect c) < 2 ^ 31"
    and "0 \<le> swidth imgSize * sheight imgSize" and "swidth imgSize * sheight imgSize < 2 ^ 31"
  shows
  "(hasTextRatio c imgSize \<longleftrightarrow>
      rheight (boundingRect c) \<noteq> 0
      \<and> 1 / 10 \<le> (of_int (rwidth (boundingRect c)) :: rat) / of_int (rheight (boundingRect c))
      \<and> (of_int (rwidth (boundingRect c)) :: rat) / of_int (rheight (boundingRect c)) \<le> 10
      \<and> 15 \<le> rwidth (boundingRect c) * rheight (boundingRect c)
      \<and> (of_int (rwidth (boundingRect c) * rheight (boundingRect c)) :: rat)
          \<le> of_int (swidth imgSize * sheight imgSize) / 5)
   \<and> (rwidth (boundingRect c) = 1 \<and> rheight (boundingRect c) = 200
        \<longrightarrow> \<not> hasTextRatio c imgSize)
   \<and> (rwidth (boundingRect c) * rheight (boundingRect c) = 10 \<longrightarrow> \<not> hasTextRatio c imgSize)
   \<and> (rwidth (boundingRect c) * rheight (boundingRect c) = 15
        \<and> rheight (boundingRect c) \<le> 10 * rwidth (boundingRect c)
        \<and> rwidth (boundingRect c) \<le> 10 * rheight (boundingRect c)
        \<and> 75 \<le> swidth imgSize * sheight imgSize
        \<longrightarrow> hasTextRatio c imgSize)"
proof -
  obtain bx0 by0 w h where box: "boundingRect c = Rect bx0 by0 w h"
    by (cases "boundingRect c")
  from boundingRect_nonneg [of c] have nn: "0 \<le> w" "0 \<le> h"
    by (simp_all add: box)
  from assms(1,2) have lt: "w < 2147483648" "h < 2147483648"
    by (simp_all add: box)
  from assms(3) have "w * h < 2 ^ 31"
    by (simp add: box)
  moreover from nn have "0 \<le> w * h" by simp
  ultimately have boxArea: "int32 (w * h) = w * h"
    by (intro int32_id)
  from assms(4,5) have img: "0 \<le> swidth imgSize * sheight imgSize"
    "swidth imgSize * sheight imgSize < 2147483648"
    by simp_all
  from assms(4,5) have imgArea:
    "int32 (swidth imgSize * sheight imgSize) = swidth imgSize * sheight imgSize"
    by (intro int32_id)
  note area = area_below_fifth [OF img, of "w * h"]
  have main: "hasTextRatio c imgSize \<longleftrightarrow>
      h \<noteq> 0 \<and> 1 / 10 \<le> (of_int w :: rat) / of_int h \<and> (of_int w :: rat) / of_int h \<le> 10
      \<and> 15 \<le> w * h \<and> (of_int (w * h) :: rat) \<le> of_int (swidth imgSize * sheight imgSize) / 5"
  proof (cases "h = 0")
    case True
    then show ?thesis
      by (simp add: hasTextRatio_def box Let_def int32_def)
  next
    case False
    with nn have hpos: "0 < h" by simp
    note lo = ratio_below_tenth [OF nn(1) hpos lt]
    note hi = ratio_above_ten [OF nn(1) hpos lt]
    have "hasTextRatio c imgSize \<longleftrightarrow>
        \<not> (binary64 (of_int w / of_int h) < binary64 (1 / 10)
            \<or> 10 < binary64 (of_int w / of_int h))
        \<and> 15 \<le> w * h
        \<and> (of_int (w * h) :: rat) \<le> binary64 (of_int (swidth imgSize * sheight imgSize) / 5)"
      using False by (simp add: hasTextRatio_def box Let_def boxArea imgArea)
    also have "\<dots> \<longleftrightarrow> \<not> ((of_int w :: rat) / of_int h < 1 / 10 \<or> 10 < (of_int w :: rat) / of_int h)
        \<and> 15 \<le> w * h
        \<and> (of_int (w * h) :: rat) \<le> of_int (swidth imgSize * sheight imgSize) / 5"
      unfolding lo hi area ..
    finally show ?thesis
      using False by (simp add: not_less)
  qed
  have tall: "w = 1 \<and> h = 200 \<longrightarrow> \<not> hasTextRatio c imgSize"
    by (simp add: main)
  have small: "w * h = 10 \<longrightarrow> \<not> hasTextRatio c imgSize"
    by (simp add: main)
  have edge: "w * h = 15 \<and> h \<le> 10 * w \<and> w \<le> 10 * h
      \<and> 75 \<le> swidth imgSize * sheight imgSize \<longrightarrow> hasTextRatio c imgSize"
  proof
    assume a: "w * h = 15 \<and> h \<le> 10 * w \<and> w \<le> 10 * h
      \<and> 75 \<le> swidth imgSize * sheight imgSize"
    then have "h \<noteq> 0" by auto
    with nn have "0 < h" by simp
    then have hpos: "(0::rat) < of_int h" by simp
    from a have "(of_int h :: rat) \<le> of_int (10 * w)" by (simp only: of_int_le_iff)
    then have r1: "1 / 10 \<le> (of_int w :: rat) / of_int h"
      using hpos by (simp add: pos_le_divide_eq)
    from a have "(of_int w :: rat) \<le> of_int (10 * h)" by (simp only: of_int_le_iff)
    then have r2: "(of_int w :: rat) / of_int h \<le> 10"
      using hpos by (simp add: pos_divide_le_eq)
    from a have "(of_int (75::int) :: rat) \<le> of_int (swidth imgSize * sheight imgSize)"
      by (simp only: of_int_le_iff)
    then have r3: "(15 :: rat) \<le> of_int (swidth imgSize * sheight imgSize) / 5"
      by simp
    from a r1 r2 r3 \<open>h \<noteq> 0\<close> show "hasTextRatio c imgSize"
      by (simp add: main)
  qed
  from main tall small edge show ?thesis
    by (simp only: box rect.sel)
qed

theorem hasTextRatio_exact_witness:
  "hasTextRatio [Point 0 0, Point 2 4] (Size 10 10)
   \<and> \<not> hasTextRatio [Point 0 0, Point 0 199] (Size 1000 1000)
   \<and> \<not> hasTextRatio [Point 0 0, Point 1 4] (Size 1000 1000)"
  using hasTextRatio_exact [of "[Point 0 0, Point 2 4]" "Size 10 10"]
    hasTextRatio_exact [of "[Point 0 0, Point 0 199]" "Size 1000 1000"]
    hasTextRatio_exact [of "[Point 0 0, Point 1 4]" "Size 1000 1000"]
  by (simp add: boundingRect_def)

text \<open>Outside that range the product is no longer the area: a box of 65537 by 65536 is
  left with 65536 and accepted in an image of 1000 by 1000.\<close>

lemma hasTextRatio_wraps:
  "hasTextRatio [Point 0 0, Point 65536 65535] (Size 1000 1000)"
  by code_simp

section \<open>Runs and their step budget\<close>

lemma andThen_Done_iff: "andThen m f = Done y \<longleftrightarrow> (\<exists>v. m = Done v \<and> f v = Done y)"
  by (cases m) auto

lemma hasTextRatio_nonempty: "hasTextRatio c imgSize \<Longrightarrow> c \<noteq> []"
  by (auto simp: hasTextRatio_def boundingRect_def Let_def int32_def)

lemma isConnected_nonempty:
  "c \<noteq> [] \<Longrightarrow> \<exists>b. isConnected c = Done b"
  by (cases c) (auto simp: isConnected_def vec_at_def)

lemma keep_total: "\<exists>b. keep c imgSize = Done b"
  using hasTextRatio_nonempty isConnected_nonempty by (auto simp: keep_def)

lemma refines_refl: "refines a a"
  by (simp add: refines_def)

lemma refines_andThen:
  "refines a a' \<Longrightarrow> (\<And>x. refines (g x) (g' x)) \<Longrightarrow> refines (andThen a g) (andThen a' g')"
  by (cases a) (auto simp: refines_def)

lemma refines_if:
  "(c \<Longrightarrow> refines a a') \<Longrightarrow> (\<not> c \<Longrightarrow> refines b b')
     \<Longrightarrow> refines (if c then a else b) (if c then a' else b')"
  by simp

lemma refines_D: "refines a b \<Longrightarrow> a = Done v \<Longrightarrow> b = Done v"
  by (simp add: refines_def)

lemma count_step_refines:
  assumes "\<And>i. refines (countChildren f cs hier i sz) (countChildren f' cs hier i sz)"
    and "\<And>s c. refines (countSiblings f cs hier s sz c) (countSiblings f' cs hier s sz c)"
  shows "refines (countChildren (Suc f) cs hier i sz) (countChildren (Suc f') cs hier i sz)"
    and "refines (countSiblings (Suc f) cs hier s sz c) (countSiblings (Suc f') cs hier s sz c)"
  unfolding countChildren.simps countSiblings.simps Let_def
  by (intro refines_andThen refines_if refines_refl assms)+

lemma count_fuel_refines:
  "f \<le> f' \<Longrightarrow>
     refines (countChildren f cs hier i sz) (countChildren f' cs hier i sz)
   \<and> refines (countSiblings f cs hier s sz c) (countSiblings f' cs hier s sz c)"
proof (induction f arbitrary: f' i s c)
  case 0
  show ?case by (simp add: refines_def)
next
  case (Suc f)
  then obtain g where g: "f' = Suc g" "f \<le> g"
    by (cases f') auto
  have a: "\<And>i. refines (countChildren f cs hier i sz) (countChildren g cs hier i sz)"
    using Suc.IH [OF g(2)] by simp
  have b: "\<And>s c. refines (countSiblings f cs hier s sz c) (countSiblings g cs hier s sz c)"
    using Suc.IH [OF g(2)] by simp
  show ?case
    unfolding g(1) using count_step_refines [of f cs hier sz g, OF a b] by simp
qed

lemma countChildren_fuel_mono:
  "countChildren f cs hier i sz = Done v \<Longrightarrow> f \<le> f' \<Longrightarrow> countChildren f' cs hier i sz = Done v"
  using count_fuel_refines [of f f' cs hier i sz] by (simp add: refines_def)

lemma countSiblings_fuel_mono:
  "countSiblings f cs hier s sz c = Done v \<Longrightarrow> f \<le> f'
     \<Longrightarrow> countSiblings f' cs hier s sz c = Done v"
  using count_fuel_refines [of f f' cs hier _ sz s c] by (simp add: refines_def)

lemma parentWalk_fuel_refines:
  "f \<le> f' \<Longrightarrow> refines (parentWalk f cs hier p sz) (parentWalk f' cs hier p sz)"
proof (induction f arbitrary: f' p)
  case 0
  show ?case by (simp add: refines_def)
next
  case (Suc f)
  then obtain g where g: "f' = Suc g" "f \<le> g"
    by (cases f') auto
  have a: "\<And>p. refines (parentWalk f cs hier p sz) (parentWalk g cs hier p sz)"
    using Suc.IH [OF g(2)] .
  show ?case
    unfolding g(1) parentWalk.simps
    by (intro refines_andThen refines_if refines_refl a)
qed

lemma regionAccepted_fuel_refines:
  assumes "f \<le> f'"
  shows "refines (regionAccepted f cs hier sz i) (regionAccepted f' cs hier sz i)"
proof -
  have a: "\<And>p. refines (parentWalk f cs hier p sz) (parentWalk f' cs hier p sz)"
    using parentWalk_fuel_refines [OF assms] .
  have b: "\<And>i. refines (countChildren f cs hier i sz) (countChildren f' cs hier i sz)"
    using count_fuel_refines [OF assms] by blast
  show ?thesis
    unfolding regionAccepted_def
    by (intro refines_andThen refines_refl a b)
qed

lemma selectRegions_fuel_refines:
  assumes "f \<le> f'"
  shows "refines (selectRegions f cs hier sz is) (selectRegions f' cs hier sz is)"
proof (induction "is")
  case Nil
  show ?case by (simp add: refines_refl)
next
  case (Cons i "is")
  show ?case
    unfolding selectRegions.simps
    by (intro refines_andThen refines_refl regionAccepted_fuel_refines [OF assms] Cons.IH)
qed

lemma textBinary_fuel_refines:
  assumes "f \<le> f'"
  shows "refines (textBinary f nthel tracer src) (textBinary f' nthel tracer src)"
  unfolding textBinary_def textBinaryCore_def Let_def
  by (intro refines_andThen refines_refl selectRegions_fuel_refines [OF assms])

section \<open>Termination of countChildren on a forest\<close>

lemma forestD:
  assumes "forest hier" "0 \<le> i" "i < int (length hier)"
  shows "link hier 0 i < int (length hier)"
    and "link hier 2 i < int (length hier)"
    and "0 \<le> link hier 2 i \<Longrightarrow> link hier 3 (link hier 2 i) = i"
    and "0 \<le> link hier 0 i \<Longrightarrow> link hier 3 (link hier 0 i) = link hier 3 i"
    and "chainEnds (length hier) (link hier 3) (\<lambda>j. j < 0) i"
    and "chainEnds (length hier) (link hier 0) (\<lambda>j. j \<le> 0) i"
proof -
  from assms(2,3) have "nat i \<in> {0 ..< length hier}" "int (nat i) = i" by auto
  with assms(1) show
    "link hier 0 i < int (length hier)"
    "link hier 2 i < int (length hier)"
    "0 \<le> link hier 2 i \<Longrightarrow> link hier 3 (link hier 2 i) = i"
    "0 \<le> link hier 0 i \<Longrightarrow> link hier 3 (link hier 0 i) = link hier 3 i"
    "chainEnds (length hier) (link hier 3) (\<lambda>j. j < 0) i"
    "chainEnds (length hier) (link hier 0) (\<lambda>j. j \<le> 0) i"
    unfolding forest_def by metis+
qed

text \<open>The sibling loop ends when the calls it makes on the contours of the chain do.\<close>

lemma countSiblings_ends:
  assumes f: "forest hier" and len: "length contours = length hier"
    and calls: "\<And>s. 0 < s \<Longrightarrow> s < int (length hier) \<Longrightarrow> link hier 3 s = p
                  \<Longrightarrow> \<exists>fuel v. countChildren fuel contours hier s imgSize = Done v"
  shows "chainEnds k (link hier 0) (\<lambda>j. j \<le> 0) s
     \<Longrightarrow> (0 < s \<Longrightarrow> s < int (length hier) \<and> link hier 3 s = p)
     \<Longrightarrow> \<exists>fuel v. countSiblings fuel contours hier s imgSize cnt = Done v"
proof (induction k arbitrary: s cnt)
  case 0
  then have "countSiblings (Suc 0) contours hier s imgSize cnt = Done cnt" by simp
  then show ?case by blast
next
  case (Suc k)
  show ?case
  proof (cases "0 < s")
    case False
    then have "countSiblings (Suc 0) contours hier s imgSize cnt = Done cnt" by simp
    then show ?thesis by blast
  next
    case True
    with Suc.prems have s: "s < int (length hier)" "link hier 3 s = p"
      and rest: "chainEnds k (link hier 0) (\<lambda>j. j \<le> 0) (link hier 0 s)"
      by auto
    from True s have s0: "0 \<le> s" by simp
    obtain b where b: "keep (contours ! nat s) imgSize = Done b"
      using keep_total by blast
    obtain f1 n where n: "countChildren f1 contours hier s imgSize = Done n"
      using calls [OF True s] by blast
    have nxt: "0 < link hier 0 s \<Longrightarrow>
        link hier 0 s < int (length hier) \<and> link hier 3 (link hier 0 s) = p"
      using forestD(1,4) [OF f s0 s(1)] s(2) by simp
    obtain f2 v where v:
      "countSiblings f2 contours hier (link hier 0 s) imgSize (cnt + (if b then 1 else 0) + n)
         = Done v"
      using Suc.IH [OF rest nxt] by blast
    have n': "countChildren (max f1 f2) contours hier s imgSize = Done n"
      using n by (rule countChildren_fuel_mono) simp
    have v': "countSiblings (max f1 f2) contours hier (link hier 0 s) imgSize
        (cnt + (if b then 1 else 0) + n) = Done v"
      using v by (rule countSiblings_fuel_mono) simp
    have "countSiblings (Suc (max f1 f2)) contours hier s imgSize cnt = Done v"
      using True s0 s(1) b n' v' len
      by (simp add: vec_at_def link_def)
    then show ?thesis by blast
  qed
qed

lemma countChildren_ends_depth:
  assumes f: "forest hier" and len: "length contours = length hier"
  shows "m \<le> length hier \<Longrightarrow> 0 \<le> i \<Longrightarrow> i < int (length hier)
     \<Longrightarrow> \<not> chainEnds (length hier - m) (link hier 3) (\<lambda>j. j < 0) i
     \<Longrightarrow> \<exists>fuel v. countChildren fuel contours hier i imgSize = Done v"
proof (induction m arbitrary: i)
  case 0
  with forestD(5) [OF f "0.prems"(2,3)] show ?case by simp
next
  case (Suc m)
  let ?ch = "link hier 2 i"
  have hi: "vec_at hier i = Done (hier ! nat i)"
    using Suc.prems by (simp add: vec_at_def)
  show ?case
  proof (cases "?ch < 0")
    case True
    with hi have "countChildren (Suc 0) contours hier i imgSize = Done 0"
      by (simp add: link_def)
    then show ?thesis by blast
  next
    case False
    then have ch0: "0 \<le> ?ch" by simp
    have chn: "?ch < int (length hier)"
      using forestD(2) [OF f Suc.prems(2,3)] .
    have chp: "link hier 3 ?ch = i"
      using forestD(3) [OF f Suc.prems(2,3) ch0] .
    have depth: "length hier - m = Suc (length hier - Suc m)"
      using Suc.prems(1) by simp
    have deeper: "\<not> chainEnds (length hier - m) (link hier 3) (\<lambda>j. j < 0) s"
      if "0 \<le> s" "link hier 3 s = i" for s
      using that Suc.prems(4) unfolding depth by simp
    have calls: "\<exists>fuel v. countChildren fuel contours hier s imgSize = Done v"
      if "0 < s" "s < int (length hier)" "link hier 3 s = i" for s
      using Suc.IH [of s] that deeper [of s] Suc.prems(1) by simp
    obtain f1 n where n: "countChildren f1 contours hier ?ch imgSize = Done n"
      using Suc.IH [of ?ch] ch0 chn deeper [OF ch0 chp] Suc.prems(1) by auto
    obtain b where b: "keep (contours ! nat ?ch) imgSize = Done b"
      using keep_total by blast
    let ?nx = "link hier 0 ?ch"
    have nx: "0 < ?nx \<Longrightarrow> ?nx < int (length hier) \<and> link hier 3 ?nx = i"
      using forestD(1,4) [OF f ch0 chn] chp by simp
    have ends: "chainEnds (length hier) (link hier 0) (\<lambda>j. j \<le> 0) ?nx"
    proof (cases "0 < ?nx")
      case True
      with nx have "0 \<le> ?nx" "?nx < int (length hier)" by simp_all
      then show ?thesis by (rule forestD(6) [OF f])
    next
      case False
      then show ?thesis by (cases "length hier") simp_all
    qed
    obtain f2 c2 where c2:
      "countSiblings f2 contours hier ?nx imgSize ((if b then 1 else 0) + n) = Done c2"
      using countSiblings_ends [OF f len calls ends nx] by blast
    obtain f3 c3 where c3: "countSiblings f3 contours hier ?nx imgSize c2 = Done c3"
      using countSiblings_ends [OF f len calls ends nx] by blast
    let ?F = "max f1 (max f2 f3)"
    have n': "countChildren ?F contours hier ?ch imgSize = Done n"
      using n by (rule countChildren_fuel_mono) simp
    have c2': "countSiblings ?F contours hier ?nx imgSize ((if b then 1 else 0) + n) = Done c2"
      using c2 by (rule countSiblings_fuel_mono) simp
    have c3': "countSiblings ?F contours hier ?nx imgSize c2 = Done c3"
      using c3 by (rule countSiblings_fuel_mono) simp
    have "countChildren (Suc ?F) contours hier i imgSize = Done c3"
      using False hi ch0 chn b n' c2' c3' len
      by (simp add: vec_at_def link_def Let_def)
    then show ?thesis by blast
  qed
qed

lemma countChildren_ends:
  assumes "forest hier" "length contours = length hier" "0 \<le> index" "index < int (length hier)"
  shows "\<exists>fuel v. countChildren fuel contours hier index imgSize = Done v"
  using countChildren_ends_depth [OF assms(1,2), of "length hier" index imgSize] assms(3,4)
  by simp

text \<open>
  Claim C10. On a hierarchy that is a finite forest, with one contour for each node,
  countChildren returns on every node index: there is a step budget from which on every
  run returns one and the same count, neither running on nor leaving the vectors.
\<close>

theorem countChildren_terminates:
  assumes "forest hier" and "length contours = length hier"
    and "0 \<le> index" and "index < int (length hier)"
  shows "\<exists>fuel v. \<forall>f \<ge> fuel. countChildren f contours hier index imgSize = Done v"
proof -
  obtain fuel v where "countChildren fuel contours hier index imgSize = Done v"
    using countChildren_ends [OF assms] by blast
  then have "\<forall>f \<ge> fuel. countChildren f contours hier index imgSize = Done v"
    using countChildren_fuel_mono by blast
  then show ?thesis by blast
qed

theorem countChildren_terminates_witness:
  "forest nestedHierarchy \<and> length nestedContours = length nestedHierarchy
   \<and> (\<exists>fuel v. \<forall>f \<ge> fuel.
         countChildren f nestedContours nestedHierarchy 0 (Size 120 120) = Done v)"
proof -
  have h1: "forest nestedHierarchy" by code_simp
  have h2: "length nestedContours = length nestedHierarchy"
    by (simp add: nestedContours_def nestedHierarchy_def)
  have h3: "(0::int) < int (length nestedHierarchy)"
    by (simp add: nestedHierarchy_def)
  from countChildren_terminates [OF h1 h2 _ h3, of "Size 120 120"] h1 h2
  show ?thesis by simp
qed

section \<open>What countChildren counts\<close>

text \<open>
  Claim C2 says that countChildren returns the number of kept contours among all
  descendants of the node. On an outer contour (node 0) with two kept inner contours side
  by side (nodes 1 and 2) that number is 2, and countChildren returns 3: its second loop,
  written to scan the previous siblings, reads the next link \<open>hier[prev][0]\<close> again, so
  every contour after the first child is counted twice.
\<close>

theorem countChildren_counts_twice:
  "countChildren 3 nestedContours nestedHierarchy 0 (Size 120 120) = Done 3
   \<and> keptDescendants nestedContours nestedHierarchy 0 (Size 120 120) = 2"
  by code_simp

section \<open>The contract of nth_element and the background estimate\<close>

lemma conforming_nth:
  assumes c: "conforming nthel" and n: "n < length xs"
  shows "nthel xs n ! n = sort xs ! n"
proof -
  let ?ys = "nthel xs n"
  let ?v = "?ys ! n"
  from c n have m: "mset ?ys = mset xs"
    and lo: "\<forall>i < n. ?ys ! i \<le> ?v"
    and hi: "\<forall>i. n < i \<and> i < length xs \<longrightarrow> ?v \<le> ?ys ! i"
    unfolding conforming_def by blast+
  from m have len: "length ?ys = length xs" by (rule mset_eq_length)
  with n have split: "?ys = take n ?ys @ ?v # drop (Suc n) ?ys"
    by (simp add: id_take_nth_drop)
  have below: "\<forall>a \<in> set (take n ?ys). a \<le> ?v"
    using lo n len by (auto simp: in_set_conv_nth)
  have above: "\<forall>b \<in> set (drop (Suc n) ?ys). ?v \<le> b"
  proof
    fix b assume "b \<in> set (drop (Suc n) ?ys)"
    then obtain k where k: "k < length ?ys - Suc n" "b = ?ys ! (Suc n + k)"
      by (auto simp: in_set_conv_nth)
    with hi len show "?v \<le> b" by simp
  qed
  let ?zs = "sort (take n ?ys) @ ?v # sort (drop (Suc n) ?ys)"
  have "sorted ?zs"
    using below above by (auto simp: sorted_append intro: order_trans)
  moreover have "mset ?zs = mset xs"
  proof -
    have "mset ?zs = mset (take n ?ys @ ?v # drop (Suc n) ?ys)" by simp
    with split m show ?thesis by simp
  qed
  ultimately have "sort xs = ?zs"
    by (simp add: properties_for_sort)
  moreover have "length (sort (take n ?ys)) = n"
    using n len by simp
  ultimately show ?thesis
    by (simp add: nth_append)
qed

lemma conforming_length: "conforming nthel \<Longrightarrow> n < length xs \<Longrightarrow> length (nthel xs n) = length xs"
  unfolding conforming_def by (metis mset_eq_length)

lemma conforming_sort: "conforming nthel \<Longrightarrow> n < length xs \<Longrightarrow> sort (nthel xs n) = sort xs"
  unfolding conforming_def by (metis mset_sort properties_for_sort sorted_sort)

lemma conforming_sorting: "conforming sorting_nth_element"
  unfolding conforming_def sorting_nth_element_def
  by (auto intro: sorted_nth_mono)

lemma bgThresh_conforming:
  assumes c: "conforming nthel" and len: "length bgs div 2 + 1 < length bgs"
  shows "bgThresh nthel bgs = bgThresh sorting_nth_element bgs"
proof -
  let ?h = "length bgs div 2"
  from len have h: "?h < length bgs" by simp
  have one: "nthel bgs ?h ! ?h = sort bgs ! ?h"
    using conforming_nth [OF c h] .
  have len1: "length (nthel bgs ?h) = length bgs"
    using conforming_length [OF c h] .
  have "nthel (nthel bgs ?h) (?h + 1) ! (?h + 1) = sort (nthel bgs ?h) ! (?h + 1)"
    using conforming_nth [OF c, of "?h + 1" "nthel bgs ?h"] len len1 by simp
  then have two: "nthel (nthel bgs ?h) (?h + 1) ! (?h + 1) = sort bgs ! (?h + 1)"
    using conforming_sort [OF c h] by simp
  show ?thesis
    using one two by (simp add: bgThresh_def Let_def sorting_nth_element_def sorted_sort_id)
qed

text \<open>
  Claim C3 says that the background estimate is the true median of the twelve samples,
  the mean of the 6th and 7th smallest, 105 on six samples of 10 and six of 200. The code
  reads positions \<open>len/2\<close> and \<open>len/2+1\<close> after the two partial selections, the 7th and
  8th smallest: whatever conforming \<open>nth_element\<close> is linked, the estimate on these
  samples is 200, while their median is 105.
\<close>

theorem bgThresh_off_by_one:
  assumes "conforming nthel"
  shows "bgThresh nthel splitSamples = 200 \<and> trueMedian splitSamples = 105"
proof -
  have "length splitSamples div 2 + 1 < length splitSamples"
    by (simp add: splitSamples_def)
  from bgThresh_conforming [OF assms this]
  have "bgThresh nthel splitSamples = bgThresh sorting_nth_element splitSamples" .
  also have "\<dots> = 200" by code_simp
  finally have "bgThresh nthel splitSamples = 200" .
  moreover have "trueMedian splitSamples = 105" by code_simp
  ultimately show ?thesis by simp
qed

theorem bgThresh_off_by_one_witness:
  "conforming sorting_nth_element
   \<and> bgThresh sorting_nth_element splitSamples = 200 \<and> trueMedian splitSamples = 105"
  using bgThresh_off_by_one [OF conforming_sorting] conforming_sorting by simp

section \<open>The fill loop\<close>

lemma rows_copyMakeBorder: "rows (copyMakeBorder src m) = rows src + 2 * m"
  and cols_copyMakeBorder: "cols (copyMakeBorder src m) = cols src + 2 * m"
  by (simp_all add: copyMakeBorder_def)

lemma cell_index:
  assumes "(0::int) \<le> x" "x < w" "(0::int) \<le> y" "y < h"
  shows "0 \<le> y * w + x" and "y * w + x < h * w"
    and "(y * w + x) mod w = x" and "(y * w + x) div w = y"
proof -
  from assms show "0 \<le> y * w + x" by simp
  from assms have "y + 1 \<le> h" by simp
  then have "(y + 1) * w \<le> h * w"
    using assms by (intro mult_right_mono) simp_all
  with assms show "y * w + x < h * w" by (simp add: algebra_simps)
  from assms show "(y * w + x) mod w = x" by simp
  from assms show "(y * w + x) div w = y" by simp
qed

lemma mat_at_copyMakeBorder:
  assumes "0 \<le> x" "x < cols src + 2 * m" "0 \<le> y" "y < rows src + 2 * m"
  shows "mat_at (copyMakeBorder src m) (Point x y) =
     (if 0 \<le> x - m \<and> x - m < cols src \<and> 0 \<le> y - m \<and> y - m < rows src
      then mat_at src (Point (x - m) (y - m)) else Vec3b 0 0 0)"
proof -
  let ?w = "cols src + 2 * m" and ?h = "rows src + 2 * m"
  note ci = cell_index [OF assms]
  have k: "nat (y * ?w + x) < nat (?h * ?w)"
    using ci(1,2) by simp
  have "mat_at (copyMakeBorder src m) (Point x y)
      = mdata (copyMakeBorder src m) ! nat (y * ?w + x)"
    by (simp add: mat_at_def cols_copyMakeBorder)
  also have "\<dots> = (let px = int (nat (y * ?w + x)) mod ?w - m;
                     py = int (nat (y * ?w + x)) div ?w - m
      in if 0 \<le> px \<and> px < cols src \<and> 0 \<le> py \<and> py < rows src
         then mat_at src (Point px py) else Vec3b 0 0 0)"
    using k by (simp add: copyMakeBorder_def)
  also have "int (nat (y * ?w + x)) = y * ?w + x"
    using ci(1) by simp
  finally show ?thesis
    using ci(3,4) by (simp add: Let_def)
qed

text \<open>What the guard does check: both bounds of \<open>x\<close> and the lower bound of \<open>y\<close>.\<close>

lemma fillGuard_checks: "fillGuard img x y \<Longrightarrow> 0 \<le> x \<and> x < cols img \<and> 0 \<le> y"
  by (simp add: fillGuard_def)

section \<open>The values of the mask\<close>

lemma twoTone_blankMask: "twoTone (blankMask r c)"
  by (simp add: twoTone_def blankMask_def)

lemma mat_set_twoTone:
  assumes "mat_set m p v = Done m'" "twoTone m" "v = 0 \<or> v = 255"
  shows "twoTone m' \<and> rows m' = rows m \<and> cols m' = cols m
    \<and> length (mdata m') = length (mdata m)"
proof -
  from assms(1) have m': "m' = m\<lparr>mdata := (mdata m)[nat (y_of p * cols m + x_of p) := v]\<rparr>"
    by (simp add: mat_set_def split: if_splits)
  have "set ((mdata m)[nat (y_of p * cols m + x_of p) := v]) \<subseteq> insert v (set (mdata m))"
    by (rule set_update_subset_insert)
  with assms(2,3) show ?thesis
    unfolding m' twoTone_def by auto
qed

lemma fillColumn_twoTone:
  "fillColumn img fgT fg bg x ys filt = Done filt' \<Longrightarrow> twoTone filt
     \<Longrightarrow> fg = 0 \<or> fg = 255 \<Longrightarrow> bg = 0 \<or> bg = 255
     \<Longrightarrow> twoTone filt' \<and> rows filt' = rows filt \<and> cols filt' = cols filt
       \<and> length (mdata filt') = length (mdata filt)"
proof (induction ys arbitrary: filt)
  case Nil
  then show ?case by simp
next
  case (Cons y ys)
  show ?case
  proof (cases "fillGuard img x y")
    case False
    with Cons show ?thesis by simp
  next
    case True
    let ?w = "if exceeds (intensity img (Point x y)) fgT
              then mat_set filt (Point x y) bg else mat_set filt (Point x y) fg"
    from Cons.prems(1) True obtain mid where
      mid: "?w = Done mid" and rest: "fillColumn img fgT fg bg x ys mid = Done filt'"
      by (auto simp: andThen_Done_iff)
    from mid Cons.prems(2,3,4) have "twoTone mid \<and> rows mid = rows filt \<and> cols mid = cols filt
        \<and> length (mdata mid) = length (mdata filt)"
      by (auto dest: mat_set_twoTone split: if_splits)
    with Cons.IH [OF rest _ Cons.prems(3,4)] show ?thesis by simp
  qed
qed

lemma fillBox_twoTone:
  "fillBox img fgT fg bg box xs filt = Done filt' \<Longrightarrow> twoTone filt
     \<Longrightarrow> fg = 0 \<or> fg = 255 \<Longrightarrow> bg = 0 \<or> bg = 255
     \<Longrightarrow> twoTone filt' \<and> rows filt' = rows filt \<and> cols filt' = cols filt
       \<and> length (mdata filt') = length (mdata filt)"
proof (induction xs arbitrary: filt)
  case Nil
  then show ?case by simp
next
  case (Cons x xs)
  from Cons.prems(1) obtain mid where
    mid: "fillColumn img fgT fg bg x [ry box .. ry box + rheight box - 1] filt = Done mid"
    and rest: "fillBox img fgT fg bg box xs mid = Done filt'"
    by (auto simp: andThen_Done_iff)
  from fillColumn_twoTone [OF mid Cons.prems(2,3,4)] Cons.IH [OF rest _ Cons.prems(3,4)]
  show ?case by simp
qed

lemma polarity_colours:
  "(fst (polarity fgT bgT) = 0 \<or> fst (polarity fgT bgT) = 255)
   \<and> (snd (polarity fgT bgT) = 0 \<or> snd (polarity fgT bgT) = 255)"
  by (simp add: polarity_def split: option.splits)

lemma paintRegion_twoTone:
  assumes "paintRegion nthel src img p filt = Done filt'" "twoTone filt"
  shows "twoTone filt' \<and> rows filt' = rows filt \<and> cols filt' = cols filt
    \<and> length (mdata filt') = length (mdata filt)"
proof -
  let ?pol = "polarity (fgThresh src (fst p)) (bgThresh nthel (bgSamples src (snd p)))"
  from assms(1) have run:
    "fillBox img (fgThresh src (fst p)) (fst ?pol) (snd ?pol) (snd p)
       [rx (snd p) .. rx (snd p) + rwidth (snd p) - 1] filt = Done filt'"
    by (simp add: paintRegion_def Let_def)
  have "fst ?pol = 0 \<or> fst ?pol = 255" and "snd ?pol = 0 \<or> snd ?pol = 255"
    using polarity_colours by blast+
  with run assms(2) show ?thesis
    by (rule fillBox_twoTone)
qed

lemma paintRegions_twoTone:
  "paintRegions nthel src img ps filt = Done filt' \<Longrightarrow> twoTone filt
     \<Longrightarrow> twoTone filt' \<and> rows filt' = rows filt \<and> cols filt' = cols filt
       \<and> length (mdata filt') = length (mdata filt)"
proof (induction ps arbitrary: filt)
  case Nil
  then show ?case by simp
next
  case (Cons p ps)
  from Cons.prems(1) obtain mid where
    mid: "paintRegion nthel src img p filt = Done mid"
    and rest: "paintRegions nthel src img ps mid = Done filt'"
    by (auto simp: andThen_Done_iff)
  from paintRegion_twoTone [OF mid Cons.prems(2)] Cons.IH [OF rest]
  show ?case by simp
qed

lemma textBinaryCore_twoTone:
  assumes "textBinaryCore fuel nthel src img contours hierarchy = Done filt"
  shows "twoTone filt \<and> rows filt = rows img \<and> cols filt = cols img
    \<and> length (mdata filt) = nat (rows img * cols img)"
proof -
  from assms obtain kept where
    "paintRegions nthel src img kept (blankMask (rows img) (cols img)) = Done filt"
    by (auto simp: textBinaryCore_def andThen_Done_iff)
  from paintRegions_twoTone [OF this twoTone_blankMask] show ?thesis
    by (simp add: blankMask_def)
qed

lemma fillColumn_total:
  assumes "cols img \<le> cols filt" "\<forall>y \<in> set ys. 0 \<le> y \<longrightarrow> y < rows filt"
  shows "\<exists>filt'. fillColumn img fgT fg bg x ys filt = Done filt'
           \<and> rows filt' = rows filt \<and> cols filt' = cols filt"
  using assms
proof (induction ys arbitrary: filt)
  case Nil
  then show ?case by simp
next
  case (Cons y ys)
  show ?case
  proof (cases "fillGuard img x y")
    case False
    with Cons show ?thesis by simp
  next
    case True
    with Cons.prems have inside: "0 \<le> x" "x < cols filt" "0 \<le> y" "y < rows filt"
      by (auto simp: fillGuard_def)
    define v where "v = (if exceeds (intensity img (Point x y)) fgT then bg else fg)"
    define mid where "mid = filt\<lparr>mdata := (mdata filt)[nat (y * cols filt + x) := v]\<rparr>"
    have step: "(if exceeds (intensity img (Point x y)) fgT
                 then mat_set filt (Point x y) bg else mat_set filt (Point x y) fg) = Done mid"
      using inside by (simp add: mat_set_def mid_def v_def)
    have dims: "rows mid = rows filt" "cols mid = cols filt"
      by (simp_all add: mid_def)
    from Cons.IH [of mid] Cons.prems dims
    obtain filt' where "fillColumn img fgT fg bg x ys mid = Done filt'"
      "rows filt' = rows filt" "cols filt' = cols filt"
      by auto
    with True step show ?thesis by simp
  qed
qed

lemma fillBox_total:
  assumes "cols img \<le> cols filt" "ry box + rheight box \<le> rows filt"
  shows "\<exists>filt'. fillBox img fgT fg bg box xs filt = Done filt'
           \<and> rows filt' = rows filt \<and> cols filt' = cols filt"
  using assms
proof (induction xs arbitrary: filt)
  case Nil
  then show ?case by simp
next
  case (Cons x xs)
  have "\<forall>y \<in> set [ry box .. ry box + rheight box - 1]. 0 \<le> y \<longrightarrow> y < rows filt"
    using Cons.prems(2) by auto
  from fillColumn_total [OF Cons.prems(1) this]
  obtain mid where mid:
    "fillColumn img fgT fg bg x [ry box .. ry box + rheight box - 1] filt = Done mid"
    "rows mid = rows filt" "cols mid = cols filt"
    by blast
  from Cons.IH [of mid] Cons.prems mid(2,3)
  obtain filt' where "fillBox img fgT fg bg box xs mid = Done filt'"
    "rows filt' = rows filt" "cols filt' = cols filt"
    by auto
  with mid(1) show ?case by simp
qed

lemma paintRegions_total:
  assumes "cols img \<le> cols filt" "\<forall>p \<in> set ps. ry (snd p) + rheight (snd p) \<le> rows filt"
  shows "\<exists>filt'. paintRegions nthel src img ps filt = Done filt'"
  using assms
proof (induction ps arbitrary: filt)
  case Nil
  then show ?case by simp
next
  case (Cons p ps)
  from Cons.prems have "ry (snd p) + rheight (snd p) \<le> rows filt" by simp
  from fillBox_total [OF Cons.prems(1) this]
  obtain mid where mid: "paintRegion nthel src img p filt = Done mid"
    "rows mid = rows filt" "cols mid = cols filt"
    unfolding paintRegion_def Let_def by blast
  from Cons.IH [of mid] Cons.prems mid(2,3)
  obtain filt' where "paintRegions nthel src img ps mid = Done filt'"
    by auto
  with mid(1) show ?case by simp
qed

text \<open>When the selection returns and every kept box ends above the last row of the padded
  image, as the box of a contour traced in it does, textBinary returns a mask.\<close>

lemma textBinaryCore_returns:
  assumes "selectRegions fuel contours hierarchy (mat_size img) [0 ..< length contours] = Done kept"
    and "\<forall>p \<in> set kept. ry (snd p) + rheight (snd p) \<le> rows img"
  shows "\<exists>filt. textBinaryCore fuel nthel src img contours hierarchy = Done filt"
  using paintRegions_total [of img "blankMask (rows img) (cols img)" kept nthel src] assms
  by (simp add: textBinaryCore_def blankMask_def)

lemma parentWalk_ends:
  assumes f: "forest hier" and len: "length contours = length hier"
  shows "chainEnds k (link hier 3) (\<lambda>j. j < 0) p \<Longrightarrow> p < int (length hier)
     \<Longrightarrow> \<exists>fuel q. parentWalk fuel contours hier p imgSize = Done q"
proof (induction k arbitrary: p)
  case 0
  then have "parentWalk (Suc 0) contours hier p imgSize = Done p" by simp
  then show ?case by blast
next
  case (Suc k)
  show ?case
  proof (cases "0 < p")
    case False
    then have "parentWalk (Suc 0) contours hier p imgSize = Done p" by simp
    then show ?thesis by blast
  next
    case True
    then have p0: "0 \<le> p" by simp
    from True Suc.prems(1) have rest: "chainEnds k (link hier 3) (\<lambda>j. j < 0) (link hier 3 p)"
      by simp
    obtain b where b: "keep (contours ! nat p) imgSize = Done b"
      using keep_total by blast
    show ?thesis
    proof (cases b)
      case False
      with True p0 Suc.prems(2) b len
      have "parentWalk (Suc 0) contours hier p imgSize = Done p"
        by (simp add: vec_at_def)
      then show ?thesis by blast
    next
      case True
      have "link hier 3 p < int (length hier)"
        using f p0 Suc.prems(2) unfolding forest_def
        by (metis atLeastLessThan_iff int_nat_eq le0 nat_less_iff)
      from Suc.IH [OF rest this] obtain fuel q where
        "parentWalk fuel contours hier (link hier 3 p) imgSize = Done q" by blast
      with True \<open>0 < p\<close> p0 Suc.prems(2) b len
      have "parentWalk (Suc fuel) contours hier p imgSize = Done q"
        by (simp add: vec_at_def link_def)
      then show ?thesis by blast
    qed
  qed
qed

lemma regionAccepted_returns:
  assumes f: "forest hier" and len: "length contours = length hier"
    and i: "0 \<le> i" "i < int (length hier)"
  shows "\<exists>fuel a. regionAccepted fuel contours hier imgSize i = Done a"
proof -
  have par: "link hier 3 i < int (length hier)"
    using f i unfolding forest_def
    by (metis atLeastLessThan_iff int_nat_eq le0 nat_less_iff)
  from i obtain m where m: "length hier = Suc m"
    by (cases "length hier") simp_all
  have "chainEnds (Suc m) (link hier 3) (\<lambda>j. j < 0) i"
    using forestD(5) [OF f i] unfolding m .
  with i have "chainEnds m (link hier 3) (\<lambda>j. j < 0) (link hier 3 i)"
    by simp
  from parentWalk_ends [OF f len this par] obtain f1 q where
    q: "parentWalk f1 contours hier (link hier 3 i) imgSize = Done q" by blast
  obtain f2 n where n: "countChildren f2 contours hier i imgSize = Done n"
    using countChildren_ends [OF f len i] by blast
  obtain b where b: "keep (contours ! nat i) imgSize = Done b"
    using keep_total by blast
  have q': "parentWalk (max f1 f2) contours hier (link hier 3 i) imgSize = Done q"
    using parentWalk_fuel_refines [of f1 "max f1 f2"] q by (simp add: refines_def)
  have n': "countChildren (max f1 f2) contours hier i imgSize = Done n"
    using n by (rule countChildren_fuel_mono) simp
  have "regionAccepted (max f1 f2) contours hier imgSize i
      = Done (b \<and> \<not> (q > 0 \<and> n \<le> 2) \<and> n \<le> 2)"
    using i len q' n' b by (simp add: regionAccepted_def vec_at_def link_def)
  then show ?thesis by blast
qed

lemma selectRegions_returns:
  assumes f: "forest hier" and len: "length contours = length hier"
  shows "\<forall>i \<in> set is. i < length hier
     \<Longrightarrow> \<exists>fuel kept. selectRegions fuel contours hier imgSize is = Done kept
           \<and> (\<forall>p \<in> set kept. \<exists>c \<in> set contours. p = (c, boundingRect c))"
proof (induction "is")
  case Nil
  have "selectRegions 0 contours hier imgSize [] = Done []" by simp
  then show ?case by fastforce
next
  case (Cons i "is")
  from Cons.prems have i: "0 \<le> int i" "int i < int (length hier)" by simp_all
  obtain f1 a where a: "regionAccepted f1 contours hier imgSize (int i) = Done a"
    using regionAccepted_returns [OF f len i] by blast
  from Cons obtain f2 kept where
    kept: "selectRegions f2 contours hier imgSize is = Done kept"
    and boxes: "\<forall>p \<in> set kept. \<exists>c \<in> set contours. p = (c, boundingRect c)"
    by auto
  have a': "regionAccepted (max f1 f2) contours hier imgSize (int i) = Done a"
    using regionAccepted_fuel_refines [of f1 "max f1 f2"] a by (simp add: refines_def)
  have kept': "selectRegions (max f1 f2) contours hier imgSize is = Done kept"
    using selectRegions_fuel_refines [of f2 "max f1 f2"] kept by (simp add: refines_def)
  have mem: "contours ! i \<in> set contours"
    using Cons.prems len by simp
  have "selectRegions (max f1 f2) contours hier imgSize (i # is)
      = Done (if a then (contours ! i, boundingRect (contours ! i)) # kept else kept)"
    using a' kept' by simp
  moreover have "\<forall>p \<in> set (if a then (contours ! i, boundingRect (contours ! i)) # kept else kept).
      \<exists>c \<in> set contours. p = (c, boundingRect c)"
    using boxes mem by auto
  ultimately show ?case by blast
qed

lemma fold_max_le: "(a :: int) \<le> b \<Longrightarrow> \<forall>x \<in> set xs. x \<le> b \<Longrightarrow> fold max xs a \<le> b"
  by (induction xs arbitrary: a) simp_all

lemma boundingRect_bottom:
  assumes "\<forall>p \<in> set c. y_of p < r" "0 \<le> r"
  shows "ry (boundingRect c) + rheight (boundingRect c) \<le> r"
proof (cases c)
  case Nil
  with assms(2) show ?thesis by (simp add: boundingRect_def)
next
  case (Cons p ps)
  with assms(1) have "y_of p \<le> r - 1" "\<forall>y \<in> set (map y_of ps). y \<le> r - 1"
    by auto
  then have "fold max (map y_of ps) (y_of p) \<le> r - 1"
    by (rule fold_max_le)
  with Cons show ?thesis
    by (simp add: boundingRect_def Let_def)
qed

text \<open>On what the contour tracer delivers, a forest with one contour for each node and
  every contour inside the padded image, textBinary returns a mask.\<close>

lemma textBinaryCore_total:
  assumes "forest hierarchy" and "length contours = length hierarchy"
    and "\<forall>c \<in> set contours. \<forall>p \<in> set c. y_of p < rows img" and "0 \<le> rows img"
  shows "\<exists>fuel filt. textBinaryCore fuel nthel src img contours hierarchy = Done filt"
proof -
  have "\<forall>i \<in> set [0 ..< length contours]. i < length hierarchy"
    using assms(2) by simp
  from selectRegions_returns [OF assms(1,2) this] obtain fuel kept where
    kept: "selectRegions fuel contours hierarchy (mat_size img) [0 ..< length contours] = Done kept"
    and boxes: "\<forall>p \<in> set kept. \<exists>c \<in> set contours. p = (c, boundingRect c)"
    by blast
  have "\<forall>p \<in> set kept. ry (snd p) + rheight (snd p) \<le> rows img"
  proof
    fix p assume "p \<in> set kept"
    with boxes obtain c where c: "c \<in> set contours" "p = (c, boundingRect c)" by blast
    with assms(3) have "\<forall>q \<in> set c. y_of q < rows img" by blast
    from boundingRect_bottom [OF this assms(4)] c(2)
    show "ry (snd p) + rheight (snd p) \<le> rows img" by simp
  qed
  from textBinaryCore_returns [OF kept this] show ?thesis by blast
qed

text \<open>In a mask that holds all its pixels, two-toned, the pixel at every position is 0
  or 255.\<close>

lemma twoTone_pixel:
  assumes "twoTone m" and "length (mdata m) = nat (rows m * cols m)"
    and "0 \<le> x" "x < cols m" "0 \<le> y" "y < rows m"
  shows "mat_at m (Point x y) = 0 \<or> mat_at m (Point x y) = 255"
proof -
  note ci = cell_index [OF assms(3-6)]
  have "nat (y * cols m + x) < length (mdata m)"
    using ci(1,2) assms(2) by simp
  then have "mdata m ! nat (y * cols m + x) \<in> set (mdata m)"
    by (rule nth_mem)
  with assms(1) show ?thesis
    by (simp add: twoTone_def mat_at_def)
qed

text \<open>
  Claim C8. Every pixel of the mask that textBinary returns is 0 or 255. The mask has the
  size of the padded image and holds one value for each of its positions; it starts as
  255 at every position, every write stores one of the two colours of the region's
  polarity, and so the value at every position of the returned mask is 0 or 255. And a
  mask is returned whenever the tracer delivers a forest with one contour for each node
  and contours that do not run below the padded image; with no contour at all it is the
  mask of 255 at every position.
\<close>

theorem textBinary_two_valued:
  "(textBinary fuel nthel tracer src = Done filt
      \<longrightarrow> rows filt = rows src + 100 \<and> cols filt = cols src + 100
        \<and> length (mdata filt) = nat ((rows src + 100) * (cols src + 100))
        \<and> (\<forall>v \<in> set (mdata filt). v = 0 \<or> v = 255)
        \<and> (\<forall>x y. 0 \<le> x \<and> x < cols src + 100 \<and> 0 \<le> y \<and> y < rows src + 100
              \<longrightarrow> mat_at filt (Point x y) = 0 \<or> mat_at filt (Point x y) = 255))
   \<and> (rows (blankMask r c) = r \<and> cols (blankMask r c) = c
        \<and> length (mdata (blankMask r c)) = nat (r * c)
        \<and> (\<forall>v \<in> set (mdata (blankMask r c)). v = 255)
        \<and> (\<forall>x y. 0 \<le> x \<and> x < c \<and> 0 \<le> y \<and> y < r
              \<longrightarrow> mat_at (blankMask r c) (Point x y) = 255))
   \<and> (fst (tracer (copyMakeBorder src 50)) = [] \<and> snd (tracer (copyMakeBorder src 50)) = []
      \<longrightarrow> textBinary fuel nthel tracer src = Done (blankMask (rows src + 100) (cols src + 100)))
   \<and> (forest (snd (tracer (copyMakeBorder src 50)))
        \<and> length (fst (tracer (copyMakeBorder src 50)))
            = length (snd (tracer (copyMakeBorder src 50)))
        \<and> (\<forall>c \<in> set (fst (tracer (copyMakeBorder src 50))).
              \<forall>p \<in> set c. y_of p < rows src + 100)
        \<and> 0 \<le> rows src
      \<longrightarrow> (\<exists>fuel filt. textBinary fuel nthel tracer src = Done filt))"
proof (intro conjI impI allI)
  assume run: "textBinary fuel nthel tracer src = Done filt"
  from textBinaryCore_twoTone [of fuel nthel src "copyMakeBorder src 50"] run
  have tt: "twoTone filt" and dims: "rows filt = rows src + 100" "cols filt = cols src + 100"
    and len: "length (mdata filt) = nat ((rows src + 100) * (cols src + 100))"
    by (simp_all add: textBinary_def Let_def rows_copyMakeBorder cols_copyMakeBorder)
  from dims show "rows filt = rows src + 100" and "cols filt = cols src + 100"
    by simp_all
  from len show "length (mdata filt) = nat ((rows src + 100) * (cols src + 100))" .
  from tt show "\<forall>v \<in> set (mdata filt). v = 0 \<or> v = 255"
    by (simp add: twoTone_def)
  fix x y
  assume "0 \<le> x \<and> x < cols src + 100 \<and> 0 \<le> y \<and> y < rows src + 100"
  with twoTone_pixel [of filt x y] tt len dims
  show "mat_at filt (Point x y) = 0 \<or> mat_at filt (Point x y) = 255"
    by simp
next
  show "rows (blankMask r c) = r" and "cols (blankMask r c) = c"
    and "length (mdata (blankMask r c)) = nat (r * c)"
    and "\<forall>v \<in> set (mdata (blankMask r c)). v = 255"
    by (simp_all add: blankMask_def)
next
  fix x y
  assume a: "0 \<le> x \<and> x < c \<and> 0 \<le> y \<and> y < r"
  then have "0 \<le> x" "x < c" "0 \<le> y" "y < r" by simp_all
  note ci = cell_index [OF this]
  have "nat (y * c + x) < nat (r * c)"
    using ci(1,2) by simp
  then show "mat_at (blankMask r c) (Point x y) = 255"
    by (simp add: mat_at_def blankMask_def)
next
  assume "fst (tracer (copyMakeBorder src 50)) = [] \<and> snd (tracer (copyMakeBorder src 50)) = []"
  then show "textBinary fuel nthel tracer src = Done (blankMask (rows src + 100) (cols src + 100))"
    by (simp add: textBinary_def Let_def textBinaryCore_def rows_copyMakeBorder
        cols_copyMakeBorder)
next
  let ?img = "copyMakeBorder src 50"
  assume a: "forest (snd (tracer ?img))
      \<and> length (fst (tracer ?img)) = length (snd (tracer ?img))
      \<and> (\<forall>c \<in> set (fst (tracer ?img)). \<forall>p \<in> set c. y_of p < rows src + 100)
      \<and> 0 \<le> rows src"
  then have "forest (snd (tracer ?img))"
    and "length (fst (tracer ?img)) = length (snd (tracer ?img))"
    and "\<forall>c \<in> set (fst (tracer ?img)). \<forall>p \<in> set c. y_of p < rows ?img"
    and "0 \<le> rows ?img"
    by (simp_all add: rows_copyMakeBorder)
  from textBinaryCore_total [OF this]
  show "\<exists>fuel filt. textBinary fuel nthel tracer src = Done filt"
    by (simp add: textBinary_def Let_def)
qed

theorem textBinary_two_valued_witness:
  "forest (snd (glyphTracer (copyMakeBorder whiteSource 50)))
   \<and> (\<exists>fuel filt. textBinary fuel sorting_nth_element glyphTracer whiteSource = Done filt
        \<and> rows filt = 120 \<and> cols filt = 120 \<and> length (mdata filt) = 14400
        \<and> (\<forall>v \<in> set (mdata filt). v = 0 \<or> v = 255)
        \<and> (mat_at filt (Point 62 61) = 0 \<or> mat_at filt (Point 62 61) = 255))
   \<and> length (mdata (blankMask 120 120)) = 14400
   \<and> mat_at (blankMask 120 120) (Point 62 61) = 255"
proof -
  have h: "forest [Vec4i (- 1) (- 1) (- 1) (- 1)]"
    by code_simp
  have inside: "\<forall>p \<in> set (rectTrace 60 60 5 4). y_of p < 120"
    by code_simp
  from textBinary_two_valued [of 0 sorting_nth_element glyphTracer whiteSource "blankMask 0 0" 0 0]
    h inside
  have "\<exists>fuel filt. textBinary fuel sorting_nth_element glyphTracer whiteSource = Done filt"
    by (simp add: glyphTracer_def whiteSource_def)
  then obtain fuel filt
    where run: "textBinary fuel sorting_nth_element glyphTracer whiteSource = Done filt"
    by blast
  from textBinary_two_valued [of fuel sorting_nth_element glyphTracer whiteSource filt 120 120] run
  have "rows filt = 120 \<and> cols filt = 120 \<and> length (mdata filt) = 14400
      \<and> (\<forall>v \<in> set (mdata filt). v = 0 \<or> v = 255)
      \<and> (mat_at filt (Point 62 61) = 0 \<or> mat_at filt (Point 62 61) = 255)
      \<and> length (mdata (blankMask 120 120)) = 14400
      \<and> mat_at (blankMask 120 120) (Point 62 61) = 255"
    by (simp add: whiteSource_def)
  with run h show ?thesis
    by (auto simp: glyphTracer_def)
qed

section \<open>The writes of the fill loop\<close>

text \<open>Every region that the selection keeps is a traced contour with its bounding box.\<close>

lemma selectRegions_boxes:
  "selectRegions fuel contours hier imgSize is = Done kept
     \<Longrightarrow> \<forall>i \<in> set is. i < length contours
     \<Longrightarrow> \<forall>p \<in> set kept. \<exists>c \<in> set contours. p = (c, boundingRect c)"
proof (induction "is" arbitrary: kept)
  case Nil
  then show ?case by simp
next
  case (Cons i "is")
  from Cons.prems(1) obtain a rest where
    rest: "selectRegions fuel contours hier imgSize is = Done rest"
    and kept: "kept = (if a then (contours ! i, boundingRect (contours ! i)) # rest else rest)"
    by (auto simp: andThen_Done_iff)
  from Cons.IH [OF rest] Cons.prems(2)
  have "\<forall>p \<in> set rest. \<exists>c \<in> set contours. p = (c, boundingRect c)" by simp
  moreover have "contours ! i \<in> set contours"
    using Cons.prems(2) by simp
  ultimately show ?case
    unfolding kept by auto
qed

text \<open>
  Claim C5. The fill loop writes the mask at (x, y) only where the point lies in the
  padded image. The guard of the loop tests both bounds of \<open>x\<close> and the lower bound of
  \<open>y\<close>; its last operand is \<open>img.rows\<close>, not \<open>y < img.rows\<close>. But \<open>y\<close> runs over
  the rows of the bounding box of a kept region, the box of a contour that was traced in
  the padded image, and such a box ends above the last row of the image. So for every
  kept region and every point of its box that passes the guard, the point is inside the
  padded image in both coordinates, and the loop over the kept regions makes no write
  outside the mask: it returns a mask.
\<close>

theorem fill_writes_inside:
  assumes "selectRegions fuel contours hierarchy (mat_size img) [0 ..< length contours] = Done kept"
    and "\<forall>c \<in> set contours. \<forall>p \<in> set c. y_of p < rows img"
    and "0 \<le> rows img"
  shows "(\<forall>p \<in> set kept.
            \<forall>x \<in> set [rx (snd p) .. rx (snd p) + rwidth (snd p) - 1].
            \<forall>y \<in> set [ry (snd p) .. ry (snd p) + rheight (snd p) - 1].
              fillGuard img x y
              \<longrightarrow> 0 \<le> x \<and> x < cols img \<and> 0 \<le> y \<and> y < rows img
                \<and> (\<exists>filt'. mat_set (blankMask (rows img) (cols img)) (Point x y) v = Done filt'))
       \<and> (\<exists>filt. paintRegions nthel src img kept (blankMask (rows img) (cols img)) = Done filt)"
proof -
  have "\<forall>i \<in> set [0 ..< length contours]. i < length contours" by simp
  with assms(1) have boxes: "\<forall>p \<in> set kept. \<exists>c \<in> set contours. p = (c, boundingRect c)"
    by (rule selectRegions_boxes)
  have bottom: "ry (snd p) + rheight (snd p) \<le> rows img" if "p \<in> set kept" for p
  proof -
    from that boxes obtain c where c: "c \<in> set contours" "p = (c, boundingRect c)" by blast
    with assms(2) have "\<forall>q \<in> set c. y_of q < rows img" by blast
    from boundingRect_bottom [OF this assms(3)] c(2) show ?thesis by simp
  qed
  have guard: "0 \<le> x \<and> x < cols img \<and> 0 \<le> y \<and> y < rows img
      \<and> (\<exists>filt'. mat_set (blankMask (rows img) (cols img)) (Point x y) v = Done filt')"
    if "p \<in> set kept" and "y \<in> set [ry (snd p) .. ry (snd p) + rheight (snd p) - 1]"
      and "fillGuard img x y" for p x y
  proof -
    from that(2) bottom [OF that(1)] have "y < rows img" by simp
    with fillGuard_checks [OF that(3)] show ?thesis
      by (simp add: mat_set_def blankMask_def)
  qed
  have "\<forall>p \<in> set kept. ry (snd p) + rheight (snd p) \<le> rows (blankMask (rows img) (cols img))"
    using bottom by (simp add: blankMask_def)
  moreover have "cols img \<le> cols (blankMask (rows img) (cols img))"
    by (simp add: blankMask_def)
  ultimately have "\<exists>filt. paintRegions nthel src img kept (blankMask (rows img) (cols img))
      = Done filt"
    by (intro paintRegions_total)
  with guard show ?thesis by blast
qed

theorem fill_writes_inside_witness:
  "selectRegions 2 [bottomContour] [Vec4i (- 1) (- 1) (- 1) (- 1)] (Size 120 120) [0]
     = Done [(bottomContour, Rect 60 116 5 4)]
   \<and> fillGuard (copyMakeBorder whiteSource 50) 62 119
   \<and> (\<exists>filt'. mat_set (blankMask 120 120) (Point 62 119) 0 = Done filt')
   \<and> (\<exists>filt. paintRegions sorting_nth_element whiteSource (copyMakeBorder whiteSource 50)
         [(bottomContour, Rect 60 116 5 4)] (blankMask 120 120) = Done filt)"
proof -
  let ?img = "copyMakeBorder whiteSource 50"
  have sz: "mat_size ?img = Size 120 120" and dims: "rows ?img = 120" "cols ?img = 120"
    by (simp_all add: mat_size_def rows_copyMakeBorder cols_copyMakeBorder whiteSource_def)
  have sel: "selectRegions 2 [bottomContour] [Vec4i (- 1) (- 1) (- 1) (- 1)] (Size 120 120) [0]
      = Done [(bottomContour, Rect 60 116 5 4)]"
    by code_simp
  have inside: "\<forall>p \<in> set bottomContour. y_of p < 120"
    by code_simp
  have g: "fillGuard ?img 62 119"
    by (simp add: fillGuard_def dims)
  from fill_writes_inside [of 2 "[bottomContour]" "[Vec4i (- 1) (- 1) (- 1) (- 1)]" ?img
      "[(bottomContour, Rect 60 116 5 4)]" 0 sorting_nth_element whiteSource]
    sel inside g
  show ?thesis
    by (simp add: sz dims)
qed

section \<open>Determinism\<close>

lemma length_bgSamples: "length (bgSamples src box) = 12"
  by (simp add: bgSamples_def)

lemma paintRegion_conforming:
  assumes "conforming n1" "conforming n2"
  shows "paintRegion n1 src img p filt = paintRegion n2 src img p filt"
proof -
  have "bgThresh n1 (bgSamples src (snd p)) = bgThresh n2 (bgSamples src (snd p))"
    using bgThresh_conforming [OF assms(1), of "bgSamples src (snd p)"]
      bgThresh_conforming [OF assms(2), of "bgSamples src (snd p)"]
    by (simp add: length_bgSamples)
  then show ?thesis
    by (simp add: paintRegion_def)
qed

lemma paintRegions_conforming:
  assumes "conforming n1" "conforming n2"
  shows "paintRegions n1 src img ps filt = paintRegions n2 src img ps filt"
proof (induction ps arbitrary: filt)
  case Nil
  show ?case by simp
next
  case (Cons p ps)
  have "paintRegions n1 src img ps = paintRegions n2 src img ps"
    by (rule ext) (rule Cons.IH)
  then show ?case
    by (simp add: paintRegion_conforming [OF assms])
qed

lemma textBinary_conforming:
  assumes "conforming n1" "conforming n2"
  shows "textBinary fuel n1 tracer src = textBinary fuel n2 tracer src"
  by (simp add: textBinary_def textBinaryCore_def paintRegions_conforming [OF assms])

lemma conforming_reversing: "conforming reversing_nth_element"
  unfolding conforming_def
proof (intro allI impI)
  fix xs :: "uchar list" and n
  assume n: "n < length xs"
  define s where "s = sort xs"
  have srt: "sorted s" and len: "length s = length xs" and ms: "mset s = mset xs"
    by (simp_all add: s_def)
  let ?ys = "rev (take n s) @ s ! n # rev (drop (Suc n) s)"
  have ys: "reversing_nth_element xs n = ?ys"
    by (simp add: reversing_nth_element_def s_def Let_def)
  have at_n: "?ys ! n = s ! n"
    using n len by (simp add: nth_append)
  have "mset ?ys = mset (take n s @ s ! n # drop (Suc n) s)"
    by simp
  also have "take n s @ s ! n # drop (Suc n) s = s"
    using n len by (simp add: id_take_nth_drop [symmetric])
  finally have m: "mset ?ys = mset xs"
    using ms by simp
  have lo: "?ys ! i \<le> s ! n" if "i < n" for i
  proof -
    from that n len have "?ys ! i = rev (take n s) ! i" and "i < length (rev (take n s))"
      by (simp_all add: nth_append)
    then have "?ys ! i \<in> set (take n s)"
      by (metis nth_mem set_rev)
    then obtain j where "j < n" "?ys ! i = s ! j"
      using n len by (auto simp: in_set_conv_nth)
    with srt n len show ?thesis
      by (simp add: sorted_nth_mono)
  qed
  have hi: "s ! n \<le> ?ys ! i" if "n < i" "i < length xs" for i
  proof -
    from that n len have "?ys ! i = rev (drop (Suc n) s) ! (i - Suc n)"
      and "i - Suc n < length (rev (drop (Suc n) s))"
      by (simp_all add: nth_append nth_Cons')
    then have "?ys ! i \<in> set (drop (Suc n) s)"
      by (metis nth_mem set_rev)
    then obtain j where j: "j < length s - Suc n" "s ! (Suc n + j) = ?ys ! i"
      by (auto simp: in_set_conv_nth)
    then have "Suc n + j < length s" by simp
    with srt have "s ! n \<le> s ! (Suc n + j)"
      by (intro sorted_nth_mono) simp_all
    with j(2) show ?thesis by simp
  qed
  show "mset (reversing_nth_element xs n) = mset xs
      \<and> (\<forall>i<n. reversing_nth_element xs n ! i \<le> reversing_nth_element xs n ! n)
      \<and> (\<forall>i. n < i \<and> i < length xs
            \<longrightarrow> reversing_nth_element xs n ! n \<le> reversing_nth_element xs n ! i)"
    unfolding ys at_n using m lo hi by blast
qed

text \<open>
  Claim C9. textBinary is deterministic. The model is a function of the image and of the
  library functions it calls, so two runs on the same image differ at most in what the
  library leaves open and in the step budget: the mask does not depend on how a
  conforming \<open>nth_element\<close> arranges the elements it does not fix, and two runs that
  return a mask return the same mask.
\<close>

theorem textBinary_deterministic:
  assumes "conforming n1" and "conforming n2"
  shows "textBinary fuel n1 tracer src = textBinary fuel n2 tracer src
     \<and> (textBinary f1 n1 tracer src = Done m1 \<and> textBinary f2 n2 tracer src = Done m2
          \<longrightarrow> m1 = m2)"
proof
  show same: "textBinary fuel n1 tracer src = textBinary fuel n2 tracer src" for fuel
    using assms by (rule textBinary_conforming)
  show "textBinary f1 n1 tracer src = Done m1 \<and> textBinary f2 n2 tracer src = Done m2
          \<longrightarrow> m1 = m2"
  proof
    assume runs: "textBinary f1 n1 tracer src = Done m1 \<and> textBinary f2 n2 tracer src = Done m2"
    have "textBinary (max f1 f2) n1 tracer src = Done m1"
      using textBinary_fuel_refines [of f1 "max f1 f2" n1 tracer src] runs
      by (simp add: refines_def)
    moreover have "textBinary (max f1 f2) n2 tracer src = Done m2"
      using textBinary_fuel_refines [of f2 "max f1 f2" n2 tracer src] runs
      by (simp add: refines_def)
    ultimately show "m1 = m2"
      using same [of "max f1 f2"] by simp
  qed
qed

theorem textBinary_deterministic_witness:
  "conforming sorting_nth_element \<and> conforming reversing_nth_element
   \<and> textBinary 1 sorting_nth_element glyphTracer whiteSource
       = textBinary 1 reversing_nth_element glyphTracer whiteSource"
  using textBinary_deterministic [OF conforming_sorting conforming_reversing]
    conforming_sorting conforming_reversing
  by blast

section \<open>The selection rule\<close>

text \<open>The walk up the parent links stops at a contour only when that contour is not
  classified keep: it steps over the kept ancestors.\<close>

lemma parentWalk_stops:
  "parentWalk fuel contours hier p imgSize = Done q \<Longrightarrow> 0 < q
     \<Longrightarrow> keep (contours ! nat q) imgSize = Done False"
proof (induction fuel arbitrary: p)
  case 0
  then show ?case by simp
next
  case (Suc fuel)
  show ?case
  proof (cases "0 < p")
    case False
    with Suc.prems show ?thesis by simp
  next
    case True
    with Suc.prems(1) obtain c k where c: "vec_at contours p = Done c"
      and k: "keep c imgSize = Done k"
      and rest: "(if k then andThen (vec_at hier p)
                    (\<lambda>h. parentWalk fuel contours hier (vec4i_at h 3) imgSize)
                  else Done p) = Done q"
      by (auto simp: andThen_Done_iff)
    show ?thesis
    proof (cases k)
      case True
      with rest obtain h where "parentWalk fuel contours hier (vec4i_at h 3) imgSize = Done q"
        by (auto simp: andThen_Done_iff)
      with Suc.IH Suc.prems(2) show ?thesis by blast
    next
      case False
      with rest have "q = p" by simp
      moreover from c have "c = contours ! nat p"
        by (simp add: vec_at_def split: if_splits)
      ultimately show ?thesis using k False by simp
    qed
  qed
qed

text \<open>The test of the loop body reads the count of contour \<open>i\<close> itself on both sides, so
  that its middle operand only asks that the walk did not stop at a positive index.\<close>

lemma regionAccepted_test:
  assumes "vec_at contours i = Done c" and "vec_at hier i = Done h"
    and "parentWalk fuel contours hier (vec4i_at h 3) imgSize = Done parent"
    and "countChildren fuel contours hier i imgSize = Done numChildren"
    and "keep c imgSize = Done k"
  shows "regionAccepted fuel contours hier imgSize i
     = Done (k \<and> numChildren \<le> 2 \<and> parent \<le> 0)"
  using assms by (auto simp: regionAccepted_def)

text \<open>
  Claim C1. Contour \<open>i\<close> is to be selected exactly when it is classified keep, its count
  is at most 2 and it has no nearest kept ancestor whose own count is at most 2. The code
  looks for "the parent contour" and tests a count against 2 next to it, but its walk
  steps over the kept ancestors instead of stopping at the first, and the count it tests
  there is that of \<open>i\<close> again. So it misses the rule in both directions. A kept contour
  inside a frame that is not kept (and has no further ancestor) has no kept ancestor, yet
  the code rejects it; a kept contour inside a kept ring whose count is 1 has such an
  ancestor, yet the code selects it.
\<close>

theorem regionAccepted_misses_policy:
  "regionAccepted 3 framedContours framedHierarchy (Size 120 120) 2 = Done False
   \<and> policyAccepted 3 framedContours framedHierarchy (Size 120 120) 2 = Done True
   \<and> regionAccepted 3 ringContours framedHierarchy (Size 120 120) 2 = Done True
   \<and> policyAccepted 3 ringContours framedHierarchy (Size 120 120) 2 = Done False"
  by code_simp

section \<open>Degenerate inputs\<close>

lemma keep_degenerate: "length c \<le> 1 \<Longrightarrow> keep c imgSize = Done False"
proof (cases c)
  case Nil
  then show ?thesis
    by (simp add: keep_def hasTextRatio_def boundingRect_def int32_def)
next
  case (Cons p ps)
  assume "length c \<le> 1"
  with Cons have "ps = []" by simp
  with Cons show ?thesis
    by (simp add: keep_def hasTextRatio_def boundingRect_def int32_def)
qed

lemma keep_True_nonempty: "keep c imgSize = Done True \<Longrightarrow> c \<noteq> []"
  using hasTextRatio_nonempty by (auto simp: keep_def split: if_splits)

text \<open>
  Claim C4 says that plateBounds and textBinary special-case or skip their degenerate
  inputs. plateBounds does not: the points that survive go to \<open>minAreaRect\<close> as they
  are, so on an image where none survives the rectangle is asked of the empty point set.
\<close>

theorem plateBounds_blank_counterexample:
  "plateBounds clearAll (minAreaRectOf boundingRect) drawNothing whitePlate
     = Fault EmptyPointSet"
  by code_simp

text \<open>
  Claim C4 as amended. textBinary has no special cases but reaches none of the undefined
  operations on its degenerate inputs: with no contour at all it returns the blank mask;
  a contour that is empty or a single point is rejected by the area bound of
  \<open>hasTextRatio\<close>, before \<open>isConnected\<close> would index it; and a contour that is
  classified keep is not empty, so the mean over its points divides by a count that is not
  zero. plateBounds returns exactly when \<open>minAreaRect\<close> is defined on the points that
  survive.
\<close>

theorem degenerate_inputs:
  "textBinaryCore fuel nthel src img [] [] = Done (blankMask (rows img) (cols img))
   \<and> (length c \<le> 1 \<longrightarrow> keep c imgSize = Done False)
   \<and> (keep c imgSize = Done True \<longrightarrow> c \<noteq> [] \<and> fgThresh src c \<noteq> None)
   \<and> ((\<exists>out. plateBounds binarize minAreaRect drawBox plate = Done out)
        \<longleftrightarrow> (\<exists>box. minAreaRect (foregroundPoints (binarize plate)) = Done box))"
proof (intro conjI impI)
  show "textBinaryCore fuel nthel src img [] [] = Done (blankMask (rows img) (cols img))"
    by (simp add: textBinaryCore_def)
  show "keep c imgSize = Done False" if "length c \<le> 1"
    using that by (rule keep_degenerate)
  show "c \<noteq> []" if "keep c imgSize = Done True"
    using that by (rule keep_True_nonempty)
  show "fgThresh src c \<noteq> None" if "keep c imgSize = Done True"
    using keep_True_nonempty [OF that] by (simp add: fgThresh_def Let_def)
  show "(\<exists>out. plateBounds binarize minAreaRect drawBox plate = Done out)
      \<longleftrightarrow> (\<exists>box. minAreaRect (foregroundPoints (binarize plate)) = Done box)"
    by (simp add: plateBounds_def Let_def andThen_Done_iff)
qed

theorem degenerate_inputs_witness:
  "keep [Point 3 3] (Size 120 120) = Done False
   \<and> keep (rectTrace 20 20 5 4) (Size 120 120) = Done True
   \<and> fgThresh whiteSource (rectTrace 20 20 5 4) \<noteq> None
   \<and> (\<exists>out. plateBounds id (minAreaRectOf boundingRect) drawNothing whitePlate = Done out)"
proof -
  have k: "keep (rectTrace 20 20 5 4) (Size 120 120) = Done True"
    by code_simp
  have "minAreaRectOf boundingRect (foregroundPoints whitePlate) = Done (Rect 0 0 5 3)"
    by code_simp
  then have m: "\<exists>box. minAreaRectOf boundingRect (foregroundPoints (id whitePlate)) = Done box"
    by simp
  note inst = degenerate_inputs [where fuel = 1 and nthel = sorting_nth_element
      and src = whiteSource and img = whiteSource and imgSize = "Size 120 120"
      and binarize = id and minAreaRect = "minAreaRectOf boundingRect"
      and drawBox = drawNothing and plate = whitePlate]
  from inst [of "[Point 3 3]"] inst [of "rectTrace 20 20 5 4"] k m
  show ?thesis by simp
qed

section \<open>The intensity sampler\<close>

lemma channel_range:
  "0 \<le> (of_nat (unat (w :: uchar)) :: rat)" "(of_nat (unat w) :: rat) \<le> 255"
proof -
  show "0 \<le> (of_nat (unat w) :: rat)" by (rule of_nat_0_le_iff)
  have "unat w < 2 ^ 8" using unsigned_less [of w] by simp
  then have "unat w \<le> 255" by simp
  then have "(of_nat (unat w) :: rat) \<le> of_nat 255" by (simp only: of_nat_le_iff)
  then show "(of_nat (unat w) :: rat) \<le> 255" by simp
qed

lemma luma_close:
  "\<bar>luma pix - of_int (weightedSum pix) / 100\<bar> \<le> 1 / 2 ^ 36 \<and> 0 \<le> luma pix"
proof -
  obtain b g r where pix: "pix = Vec3b b g r" by (cases pix)
  define R :: rat where "R = of_nat (unat r)"
  define G :: rat where "G = of_nat (unat g)"
  define B :: rat where "B = of_nat (unat b)"
  have rng: "0 \<le> R" "R \<le> 255" "0 \<le> G" "G \<le> 255" "0 \<le> B" "B \<le> 255"
    unfolding R_def G_def B_def by (rule channel_range)+
  have c3: "binary64 (3 / 10) = 5404319552844595 / 18014398509481984" by code_simp
  have c59: "binary64 (59 / 100) = 5314247560297185 / 9007199254740992" by code_simp
  have c11: "binary64 (11 / 100) = 7926335344172073 / 72057594037927936" by code_simp
  define pr where "pr = binary64 (binary64 (3 / 10) * R)"
  define pg where "pg = binary64 (binary64 (59 / 100) * G)"
  define pb where "pb = binary64 (binary64 (11 / 100) * B)"
  define s1 where "s1 = binary64 (pr + pg)"
  define s2 where "s2 = binary64 (s1 + pb)"
  have l: "luma pix = s2"
    by (simp add: luma_def pix s2_def s1_def pr_def pg_def pb_def R_def G_def B_def)
  have "0 \<le> 5404319552844595 / 18014398509481984 * R"
    "5404319552844595 / 18014398509481984 * R < 256"
    using rng(1,2) by linarith+
  from binary64_bounds [OF this]
  have pr: "3 / 10 * R - 1 / 274877906944 \<le> pr" "pr \<le> 3 / 10 * R + 1 / 274877906944"
    unfolding pr_def c3 using rng(1,2) by linarith+
  have "0 \<le> 5314247560297185 / 9007199254740992 * G"
    "5314247560297185 / 9007199254740992 * G < 256"
    using rng(3,4) by linarith+
  from binary64_bounds [OF this]
  have pg: "59 / 100 * G - 1 / 274877906944 \<le> pg" "pg \<le> 59 / 100 * G + 1 / 274877906944"
    unfolding pg_def c59 using rng(3,4) by linarith+
  have "0 \<le> 7926335344172073 / 72057594037927936 * B"
    "7926335344172073 / 72057594037927936 * B < 256"
    using rng(5,6) by linarith+
  from binary64_bounds [OF this]
  have pb: "11 / 100 * B - 1 / 274877906944 \<le> pb" "pb \<le> 11 / 100 * B + 1 / 274877906944"
    unfolding pb_def c11 using rng(5,6) by linarith+
  have nn: "0 \<le> pr" "0 \<le> pg" "0 \<le> pb"
    by (simp_all add: pr_def pg_def pb_def binary64_nonneg)
  have "0 \<le> pr + pg" "pr + pg < 256"
    using nn pr pg rng by linarith+
  from binary64_bounds [OF this]
  have s1: "pr + pg - 1 / 70368744177664 \<le> s1" "s1 \<le> pr + pg + 1 / 70368744177664"
    unfolding s1_def by linarith+
  have s1nn: "0 \<le> s1" by (simp add: s1_def binary64_nonneg)
  have "0 \<le> s1 + pb" "s1 + pb < 256"
    using s1nn nn s1 pr pg pb rng by linarith+
  from binary64_bounds [OF this]
  have s2: "s1 + pb - 1 / 70368744177664 \<le> s2" "s2 \<le> s1 + pb + 1 / 70368744177664"
    unfolding s2_def by linarith+
  have w: "(of_int (weightedSum pix) :: rat) / 100 = 3 / 10 * R + 59 / 100 * G + 11 / 100 * B"
    by (simp add: weightedSum_def pix R_def G_def B_def)
  have "\<bar>s2 - (3 / 10 * R + 59 / 100 * G + 11 / 100 * B)\<bar> \<le> 1 / 68719476736"
    unfolding abs_le_iff using s2 s1 pr pg pb by linarith
  moreover have "0 \<le> s2" by (simp add: s2_def binary64_nonneg)
  ultimately show ?thesis
    unfolding l w by simp
qed

lemma weightedSum_range: "0 \<le> weightedSum pix \<and> weightedSum pix \<le> 25500"
proof -
  obtain b g r where pix: "pix = Vec3b b g r" by (cases pix)
  have "uint r < 2 ^ 8" "uint g < 2 ^ 8" "uint b < 2 ^ 8"
    using uint_lt2p [of r] uint_lt2p [of g] uint_lt2p [of b] by simp_all
  moreover have "0 \<le> uint r" "0 \<le> uint g" "0 \<le> uint b"
    by simp_all
  ultimately show ?thesis
    by (simp add: weightedSum_def pix)
qed

lemma luma_floor:
  "\<lfloor>luma pix\<rfloor> = weightedSum pix div 100
   \<or> (weightedSum pix mod 100 = 0 \<and> \<lfloor>luma pix\<rfloor> = weightedSum pix div 100 - 1)"
proof -
  define k where "k = weightedSum pix"
  define m where "m = k div 100"
  define r where "r = k mod 100"
  have r: "0 \<le> r" "r < 100" and k: "k = 100 * m + r"
    by (simp_all add: r_def m_def)
  have "(of_int k :: rat) = 100 * of_int m + of_int r"
    by (subst k) simp
  then have ex: "(of_int k :: rat) / 100 = of_int m + of_int r / 100"
    by simp
  have "\<bar>luma pix - of_int k / 100\<bar> \<le> 1 / 68719476736"
    using luma_close [of pix] by (simp add: k_def)
  then have lo: "of_int m + of_int r / 100 - 1 / 68719476736 \<le> luma pix"
    and hi: "luma pix \<le> of_int m + of_int r / 100 + 1 / 68719476736"
    unfolding ex abs_le_iff by linarith+
  show ?thesis
  proof (cases "r = 0")
    case True
    show ?thesis
    proof (cases "of_int m \<le> luma pix")
      case True
      moreover have "luma pix < of_int m + 1"
        using hi \<open>r = 0\<close> by simp
      ultimately have "\<lfloor>luma pix\<rfloor> = m" by (rule floor_unique)
      then show ?thesis by (simp add: m_def k_def)
    next
      case False
      have "of_int (m - 1) \<le> luma pix"
        using lo \<open>r = 0\<close> by simp
      moreover have "luma pix < of_int (m - 1) + 1"
        using False by simp
      ultimately have "\<lfloor>luma pix\<rfloor> = m - 1" by (rule floor_unique)
      with \<open>r = 0\<close> show ?thesis by (simp add: m_def k_def r_def)
    qed
  next
    case False
    with r have "1 \<le> r" "r \<le> 99" by simp_all
    then have "(1::rat) \<le> of_int r" "(of_int r :: rat) \<le> 99"
      by simp_all
    then have "of_int m \<le> luma pix" "luma pix < of_int m + 1"
      using lo hi by linarith+
    then have "\<lfloor>luma pix\<rfloor> = m" by (rule floor_unique)
    then show ?thesis by (simp add: m_def k_def)
  qed
qed

lemma unat_uchar_of_double:
  "int (unat (uchar_of_double (luma pix))) = \<lfloor>luma pix\<rfloor>"
proof -
  have "0 \<le> luma pix" using luma_close by blast
  then have lo: "0 \<le> \<lfloor>luma pix\<rfloor>" by simp
  have "luma pix \<le> of_int (weightedSum pix) / 100 + 1 / 68719476736"
    using luma_close [of pix] unfolding abs_le_iff by simp
  moreover have "(of_int (weightedSum pix) :: rat) \<le> of_int 25500"
    using weightedSum_range [of pix] by (simp only: of_int_le_iff)
  ultimately have "luma pix < 256" by simp
  then have hi: "\<lfloor>luma pix\<rfloor> < 2 ^ 8" by (simp add: floor_less_iff)
  show ?thesis
    using lo hi by (simp add: uchar_of_double_def unsigned_of_int take_bit_int_eq_self)
qed

text \<open>
  What the sampler returns. It is 0 for every point outside the image, on either side in
  either coordinate, with no access there. For a point inside it is the double value of
  \<open>0.3 R + 0.59 G + 0.11 B\<close> converted to \<open>uchar\<close>: the computed sum is within
  \<open>2\<^sup>-\<^sup>3\<^sup>6\<close> of the exact luma, and the value returned is the exact luma truncated, or
  one less, which can happen only where the exact luma is a whole number.
\<close>

lemma intensity_within_one:
  "(x_of loc < 0 \<or> cols img \<le> x_of loc \<or> y_of loc < 0 \<or> rows img \<le> y_of loc
      \<longrightarrow> intensity img loc = 0)
   \<and> (0 \<le> x_of loc \<and> x_of loc < cols img \<and> 0 \<le> y_of loc \<and> y_of loc < rows img
      \<longrightarrow> intensity img loc = uchar_of_double (luma (mat_at img loc))
        \<and> \<bar>luma (mat_at img loc) - of_int (weightedSum (mat_at img loc)) / 100\<bar> \<le> 1 / 2 ^ 36
        \<and> (int (unat (intensity img loc)) = weightedSum (mat_at img loc) div 100
            \<or> (weightedSum (mat_at img loc) mod 100 = 0
                \<and> int (unat (intensity img loc)) = weightedSum (mat_at img loc) div 100 - 1)))"
proof (intro conjI impI)
  assume "x_of loc < 0 \<or> cols img \<le> x_of loc \<or> y_of loc < 0 \<or> rows img \<le> y_of loc"
  then show "intensity img loc = 0"
    by (auto simp: intensity_def)
next
  assume "0 \<le> x_of loc \<and> x_of loc < cols img \<and> 0 \<le> y_of loc \<and> y_of loc < rows img"
  then have i: "intensity img loc = uchar_of_double (luma (mat_at img loc))"
    by (simp add: intensity_def)
  show "intensity img loc = uchar_of_double (luma (mat_at img loc))" by (rule i)
  show "\<bar>luma (mat_at img loc) - of_int (weightedSum (mat_at img loc)) / 100\<bar> \<le> 1 / 2 ^ 36"
    using luma_close by blast
  show "int (unat (intensity img loc)) = weightedSum (mat_at img loc) div 100
      \<or> (weightedSum (mat_at img loc) mod 100 = 0
          \<and> int (unat (intensity img loc)) = weightedSum (mat_at img loc) div 100 - 1)"
    unfolding i unat_uchar_of_double by (rule luma_floor)
qed

text \<open>On the pixel (B, G, R) = (13, 23, 0) the luma is exactly 15 and the computed
  intensity is 14.\<close>

lemma intensity_rounds_down:
  "intensity \<lparr>rows = 1, cols = 1, mdata = [Vec3b 13 23 0]\<rparr> (Point 0 0) = 14
   \<and> weightedSum (Vec3b 13 23 0) = 1500"
  by code_simp

text \<open>
  Claim C7. The sampler is to return 0 outside the image and the luma
  \<open>0.3 R + 0.59 G + 0.11 B\<close> of the pixel inside. The expression of the source is that
  luma, but it is a sum of rounded doubles that the return converts to \<open>uchar\<close> by
  truncation, without rounding to the nearest: on a pixel of the grey level 10, whose
  luma is exactly 10, the computed sum lies just below 10 and the sampler returns 9.
\<close>

theorem intensity_grey_ten:
  "intensity greyPixel (Point 0 0) = 9
   \<and> mat_at greyPixel (Point 0 0) = Vec3b 10 10 10
   \<and> (of_int (weightedSum (Vec3b 10 10 10)) :: rat) / 100 = 10
   \<and> luma (Vec3b 10 10 10) < 10"
  by code_simp

end
